theory Spec2Isabelle
  imports Main "HOL-Library.AList" "HOL-Library.Multiset"
begin

section \<open>Values\<close>

text \<open>
  JavaScript values as far as the store, the reducer composer and the middleware pipeline
  look at them. An object is a record of its own enumerable properties with string keys,
  in the order \<^verbatim>\<open>Object.keys\<close> lists them (the keys of one object are distinct),
  together with its identity (the number of its allocation) and whether it is a plain
  object. Reference equality \<^verbatim>\<open>===\<close> compares objects by identity and every other
  value by content (there is no NaN among the numbers modelled). The code under study
  never writes to an object after it has handed it out, so an object value carries its
  properties with it.
\<close>

datatype okind = Plain | Exotic

datatype val =
    Undefined
  | Null
  | Bool bool
  | Num int
  | Str string
  | Fun nat
  | Obj nat okind "(string \<times> val) list"

datatype jstype = TUndefined | TObject | TBoolean | TNumber | TString | TFunction

fun typeof :: "val \<Rightarrow> jstype" where
  "typeof Undefined = TUndefined"
| "typeof Null = TObject"
| "typeof (Bool b) = TBoolean"
| "typeof (Num n) = TNumber"
| "typeof (Str s) = TString"
| "typeof (Fun f) = TFunction"
| "typeof (Obj i k ps) = TObject"

fun strict_eq :: "val \<Rightarrow> val \<Rightarrow> bool" where
  "strict_eq (Obj i k ps) (Obj j l qs) = (i = j)"
| "strict_eq v w = (v = w)"

fun truthy :: "val \<Rightarrow> bool" where
  "truthy Undefined = False"
| "truthy Null = False"
| "truthy (Bool b) = b"
| "truthy (Num n) = (n \<noteq> 0)"
| "truthy (Str s) = (s \<noteq> [])"
| "truthy (Fun f) = True"
| "truthy (Obj i k ps) = True"

text \<open>
  Errors are values. The named ones are the \<^verbatim>\<open>new Error(...)\<close> and
  \<^verbatim>\<open>new TypeError(...)\<close> the code throws, called by the kind of failure they report;
  \<open>EngineTypeError\<close> is the TypeError the language itself raises when a property of
  \<^verbatim>\<open>null\<close> or \<^verbatim>\<open>undefined\<close> is read, a value that is no function is called, or a
  property that cannot be assigned is assigned;
  \<open>Thrown v\<close> is any value thrown by application code (a reducer, a listener, a
  middleware).
\<close>

datatype rru_phase = DuringInitialization | DuringRandomProbe | GivenAction "val option"

datatype error =
    InvalidReducer
  | InvalidListener
  | InvalidObserver
  | InvalidAction
  | MissingActionType
  | ReentrantDispatch
  | ReentrantRead
  | ReentrantSubscribe
  | ReentrantUnsubscribe
  | InvalidEnhancer
  | ReducerReturnedUndefined rru_phase string
  | DispatchDuringMiddlewareConstruction
  | EngineTypeError
  | Thrown val

fun error_truthy :: "error \<Rightarrow> bool" where
  "error_truthy (Thrown v) = truthy v"
| "error_truthy e = True"

text \<open>
  The environment the code runs in. \<open>production\<close> is
  \<^verbatim>\<open>process.env.NODE_ENV === 'production'\<close>. A read \<^verbatim>\<open>v[key]\<close> that does not find
  \<open>key\<close> among the listed properties of \<open>v\<close> goes on to the prototype chain of an
  object and to the built-in properties of a primitive or a function; what it finds there
  depends on the engine and on the objects of the application, and is \<open>inherited v key\<close>
  (for an object literal in an engine of the standard, \<^verbatim>\<open>toString\<close>, \<^verbatim>\<open>valueOf\<close>,
  \<^verbatim>\<open>hasOwnProperty\<close>, \<^verbatim>\<open>constructor\<close> and the other properties of
  \<^verbatim>\<open>Object.prototype\<close> are found, and a key no prototype has gives \<^verbatim>\<open>undefined\<close>).
  \<open>tagIsWord v\<close> says that \<^verbatim>\<open>{}.toString.call(v)\<close>, which is \<^verbatim>\<open>[object Tag]\<close>,
  has a letter after the blank, as the pattern that the code matches it against asks:
  every built-in tag has, a tag an object gives itself need not. \<open>printable v\<close> says
  that \<^verbatim>\<open>String(v)\<close> returns: it does for every primitive, and for an object whose
  \<^verbatim>\<open>toString\<close> or \<^verbatim>\<open>valueOf\<close> returns a primitive, and throws a TypeError
  otherwise.
  \<open>refusesAssignment key\<close> says that an object whose prototype has been replaced by a
  function of the application cannot be assigned the property \<open>key\<close> (in an engine of
  the standard these are \<^verbatim>\<open>length\<close> and \<^verbatim>\<open>name\<close>, read-only properties of every
  function, and \<^verbatim>\<open>arguments\<close> and \<^verbatim>\<open>caller\<close>, whose setters throw); the code is a
  module, hence strict, and such an assignment throws a TypeError.
\<close>

record environment =
  production :: bool
  inherited :: "val \<Rightarrow> string \<Rightarrow> val"
  tagIsWord :: "val \<Rightarrow> bool"
  printable :: "val \<Rightarrow> bool"
  refusesAssignment :: "string \<Rightarrow> bool"

text \<open>
  The listed properties of a value; their keys, which are \<^verbatim>\<open>Object.keys(v)\<close> of an
  object \<open>v\<close>; and \<^verbatim>\<open>v[key]\<close>: reading a property of \<^verbatim>\<open>null\<close> or
  \<^verbatim>\<open>undefined\<close> throws, and an own property comes before an inherited one.
\<close>

fun own_prop :: "val \<Rightarrow> string \<Rightarrow> val option" where
  "own_prop (Obj i k ps) key = map_of ps key"
| "own_prop v key = None"

fun own_keys :: "val \<Rightarrow> string list" where
  "own_keys (Obj i k ps) = map fst ps"
| "own_keys v = []"

definition get_prop :: "environment \<Rightarrow> val \<Rightarrow> string \<Rightarrow> error + val" where
  "get_prop env v key =
     (if v = Undefined \<or> v = Null then Inl EngineTypeError
      else (case own_prop v key of
              Some x \<Rightarrow> Inr x
            | None \<Rightarrow> Inr (inherited env v key)))"

text \<open>
  An object literal that reaches the application allocates: the allocation counter is the
  identity of the new object and moves on by one. (An object that stays inside the code,
  such as \<^verbatim>\<open>finalReducers\<close>, needs no identity.)
\<close>

definition new_object :: "(string \<times> val) list \<Rightarrow> nat \<Rightarrow> val \<times> nat" where
  "new_object ps n = (Obj n Plain ps, Suc n)"

text \<open>
  Modelled from the spec: \<^verbatim>\<open>./utils/isPlainObject\<close> is not among the sources. The spec
  asks for ``a plain structured record, not an opaque/exotic object, not a primitive''.
\<close>

fun isPlainObject :: "val \<Rightarrow> bool" where
  "isPlainObject (Obj i k ps) = (k = Plain)"
| "isPlainObject v = False"

text \<open>
  Modelled from the spec: \<^verbatim>\<open>./utils/actionTypes\<close> is not among the sources. The spec
  names two reserved action types, one for initialization and one for the replacement of
  the reducer.
\<close>

definition ActionTypes_INIT :: string where
  "ActionTypes_INIT = ''@@redux/INIT''"

definition ActionTypes_REPLACE :: string where
  "ActionTypes_REPLACE = ''@@redux/REPLACE''"

text \<open>
  A reducer is a function of the previous state and the action. It may throw, and it may
  allocate objects, so it takes the allocation counter and returns it.
\<close>

type_synonym reducer = "val \<Rightarrow> val \<Rightarrow> nat \<Rightarrow> (error + val) \<times> nat"

section \<open>Function pipe: \<open>compose\<close>\<close>

text \<open>
  \<^verbatim>\<open>
  export default function compose(...funcs) {
    if (funcs.length === 0) { return arg => arg }
    if (funcs.length === 1) { return funcs[0] }
    return funcs.reduce((a, b) => (...args) => a(b(...args)))
  }
  \<close>
  The rest parameter \<open>funcs\<close> is a list. \<open>Array.prototype.reduce\<close> without an initial
  value starts from the first element and folds the remaining ones from left to right,
  which is \<open>foldl\<close> from the head over the tail. The argument tuple \<open>...args\<close> of the
  composed function is one value of the argument type. The functions of a list have one
  type: they are functions on the values of the language.
\<close>

fun compose :: "('a \<Rightarrow> 'a) list \<Rightarrow> 'a \<Rightarrow> 'a" where
  "compose [] = (\<lambda>arg. arg)"
| "compose [f] = f"
| "compose (f # g # fs) = foldl (\<lambda>a b. (\<lambda>args. a (b args))) f (g # fs)"

section \<open>Reducer composer: \<open>combineReducers\<close>\<close>

text \<open>
  The mapping handed to \<^verbatim>\<open>combineReducers\<close> is an association list of its own
  enumerable properties in the order of \<^verbatim>\<open>Object.keys\<close>; an entry is a function or
  some other value.
\<close>

datatype rentry = Callable reducer | NotCallable val

text \<open>
  \<^verbatim>\<open>finalReducers[key] = reducers[key]\<close> on the object \<^verbatim>\<open>finalReducers\<close>, which
  starts as the literal \<^verbatim>\<open>{}\<close> and is written to by this assignment only. The object
  is kept as the list of its own properties together with a flag that says whether its
  prototype has been replaced. A key the object owns is updated. The key
  \<^verbatim>\<open>__proto__\<close> is never owned: \<^verbatim>\<open>Object.prototype\<close> has an accessor of that name,
  the assignment runs its setter, the function assigned becomes the prototype of
  \<^verbatim>\<open>finalReducers\<close>, and no own property is added (the accessor is still found through
  the function once it is the prototype). Any other key is added as an own property,
  unless the prototype is a function by then and refuses the key, in which case the
  assignment throws.
\<close>

definition assignFinalReducer ::
  "environment \<Rightarrow> string \<Rightarrow> reducer \<Rightarrow> (string \<times> reducer) list \<times> bool
     \<Rightarrow> error + (string \<times> reducer) list \<times> bool"
where
  "assignFinalReducer env key r fp =
     (case fp of (finalReducers, prototypeReplaced) \<Rightarrow>
        if map_of finalReducers key \<noteq> None
        then Inr (AList.update key r finalReducers, prototypeReplaced)
        else if key = ''__proto__'' then Inr (finalReducers, True)
        else if prototypeReplaced \<and> refusesAssignment env key then Inl EngineTypeError
        else Inr (finalReducers @ [(key, r)], prototypeReplaced))"

text \<open>
  \<^verbatim>\<open>
  const reducerKeys = Object.keys(reducers)
  const finalReducers = {}
  for (let i = 0; i < reducerKeys.length; i++) {
    const key = reducerKeys[i]
    if (process.env.NODE_ENV !== 'production') {
      if (typeof reducers[key] === 'undefined') { warning(`No reducer provided for key "${key}"`) }
    }
    if (typeof reducers[key] === 'function') { finalReducers[key] = reducers[key] }
  }
  \<close>
  Modelled from the spec: \<^verbatim>\<open>./utils/warning\<close> is not among the sources. The spec has
  diagnostics reported ``through a side channel'' that ``must not alter control flow'':
  a call of \<^verbatim>\<open>warning\<close> returns and changes nothing the code reads, and is left out.
\<close>

fun collectFinalReducers ::
  "environment \<Rightarrow> (string \<times> rentry) list \<Rightarrow> string list \<Rightarrow> (string \<times> reducer) list \<times> bool
     \<Rightarrow> error + (string \<times> reducer) list \<times> bool"
where
  "collectFinalReducers env reducers [] fp = Inr fp"
| "collectFinalReducers env reducers (key # keys) fp =
     (case map_of reducers key of
        Some (Callable r) \<Rightarrow>
          (case assignFinalReducer env key r fp of
             Inl e \<Rightarrow> Inl e
           | Inr fp' \<Rightarrow> collectFinalReducers env reducers keys fp')
      | _ \<Rightarrow> collectFinalReducers env reducers keys fp)"

definition PROBE_UNKNOWN_ACTION :: string where
  "PROBE_UNKNOWN_ACTION = ''@@redux/PROBE_UNKNOWN_ACTION_''"

text \<open>
  \<^verbatim>\<open>
  function assertReducerShape(reducers) {
    Object.keys(reducers).forEach(key => {
      const reducer = reducers[key]
      const initialState = reducer(undefined, { type: ActionTypes.INIT })
      if (typeof initialState === 'undefined') { throw new Error(...during initialization...) }
      const type = '@@redux/PROBE_UNKNOWN_ACTION_' +
        Math.random().toString(36).substring(7).split('').join('.')
      if (typeof reducer(undefined, { type }) === 'undefined') {
        throw new Error(...when probed with a random type...)
      }
    })
  }
  \<close>
  \<open>rnd key\<close> is the random suffix drawn while the reducer of \<open>key\<close> is probed.
\<close>

fun assertReducerShape ::
  "(string \<times> reducer) list \<Rightarrow> (string \<Rightarrow> string) \<Rightarrow> nat \<Rightarrow> (error + unit) \<times> nat"
where
  "assertReducerShape [] rnd n = (Inr (), n)"
| "assertReducerShape ((key, reducer) # rest) rnd n =
     (case new_object [(''type'', Str ActionTypes_INIT)] n of (initAction, n1) \<Rightarrow>
      (case reducer Undefined initAction n1 of
         (Inl e, n2) \<Rightarrow> (Inl e, n2)
       | (Inr initialState, n2) \<Rightarrow>
           if typeof initialState = TUndefined
           then (Inl (ReducerReturnedUndefined DuringInitialization key), n2)
           else
             (case new_object [(''type'', Str (PROBE_UNKNOWN_ACTION @ rnd key))] n2 of
                (probeAction, n3) \<Rightarrow>
                (case reducer Undefined probeAction n3 of
                   (Inl e, n4) \<Rightarrow> (Inl e, n4)
                 | (Inr probed, n4) \<Rightarrow>
                     if typeof probed = TUndefined
                     then (Inl (ReducerReturnedUndefined DuringRandomProbe key), n4)
                     else assertReducerShape rest rnd n4))))"

text \<open>
  What the closure \<^verbatim>\<open>combination\<close> keeps from the call of \<^verbatim>\<open>combineReducers\<close>:
  the own properties of \<^verbatim>\<open>finalReducers\<close> (\<^verbatim>\<open>finalReducerKeys\<close> are their keys) and
  the error caught from \<^verbatim>\<open>assertReducerShape\<close>, if any.
  \<^verbatim>\<open>
  const finalReducerKeys = Object.keys(finalReducers)
  let unexpectedKeyCache
  if (process.env.NODE_ENV !== 'production') { unexpectedKeyCache = {} }
  let shapeAssertionError
  try { assertReducerShape(finalReducers) } catch (e) { shapeAssertionError = e }
  return function combination(state = {}, action) {...}
  \<close>
  The call of \<^verbatim>\<open>combineReducers\<close> throws when an assignment to \<^verbatim>\<open>finalReducers\<close>
  does. \<^verbatim>\<open>unexpectedKeyCache\<close> only chooses among warnings.
\<close>

record combined =
  finalReducers :: "(string \<times> reducer) list"
  shapeAssertionError :: "error option"

definition combineReducers ::
  "environment \<Rightarrow> (string \<times> rentry) list \<Rightarrow> (string \<Rightarrow> string) \<Rightarrow> nat \<Rightarrow> (error + combined) \<times> nat"
where
  "combineReducers env reducers rnd n =
     (let reducerKeys = map fst reducers
      in case collectFinalReducers env reducers reducerKeys ([], False) of
           Inl e \<Rightarrow> (Inl e, n)
         | Inr (final, prototypeReplaced) \<Rightarrow>
             (case assertReducerShape final rnd n of
                (Inl e, n') \<Rightarrow> (Inr \<lparr>finalReducers = final, shapeAssertionError = Some e\<rparr>, n')
              | (Inr u, n') \<Rightarrow> (Inr \<lparr>finalReducers = final, shapeAssertionError = None\<rparr>, n')))"

text \<open>
  \<^verbatim>\<open>
  function getUndefinedStateErrorMessage(key, action) {
    const actionType = action && action.type
    const actionDescription = (actionType && `action "${String(actionType)}"`) || 'an action'
    return `Given ${actionDescription}, reducer "${key}" returned undefined. ...`
  }
  \<close>
  The error keeps the key and the action type the message names (\<open>None\<close> for
  ``an action''). Reading \<^verbatim>\<open>action.type\<close> of a truthy value never throws. When the
  action type is truthy and \<^verbatim>\<open>String(actionType)\<close> throws, no message is built and
  the error is the TypeError of the language.
\<close>

definition getUndefinedStateError :: "environment \<Rightarrow> string \<Rightarrow> val \<Rightarrow> error" where
  "getUndefinedStateError env key action =
     (let actionType =
            (if truthy action
             then (case get_prop env action ''type'' of Inr t \<Rightarrow> t | Inl e \<Rightarrow> Undefined)
             else action)
      in if truthy actionType \<and> \<not> printable env actionType then EngineTypeError
         else ReducerReturnedUndefined
                (GivenAction (if truthy actionType then Some actionType else None)) key)"

text \<open>
  The check that runs outside production before the reducers are called:
  \<^verbatim>\<open>
  function getUnexpectedStateShapeWarningMessage(inputState, reducers, action, unexpectedKeyCache) {
    const reducerKeys = Object.keys(reducers)
    const argumentName = action && action.type === ActionTypes.INIT ? ... : ...
    if (reducerKeys.length === 0) { return 'Store does not have a valid reducer. ...' }
    if (!isPlainObject(inputState)) {
      return `The ${argumentName} has unexpected type of "` +
        {}.toString.call(inputState).match(...)[1] + `". ...`
    }
    const unexpectedKeys = Object.keys(inputState).filter(
      key => !reducers.hasOwnProperty(key) && !unexpectedKeyCache[key]
    )
    unexpectedKeys.forEach(key => { unexpectedKeyCache[key] = true })
    if (action && action.type === ActionTypes.REPLACE) return
    if (unexpectedKeys.length > 0) { return `Unexpected ...` }
  }
  \<close>
  Its result is a message or nothing and goes to \<^verbatim>\<open>warning\<close>; what is kept here is
  whether it returns at all, and the allocation counter. \<^verbatim>\<open>match(...)[1]\<close> throws when
  the tag of the state does not match. \<^verbatim>\<open>reducers\<close> is \<^verbatim>\<open>finalReducers\<close>, so
  \<^verbatim>\<open>reducers.hasOwnProperty\<close> is the reducer registered under the key
  \<^verbatim>\<open>hasOwnProperty\<close> if there is one, and \<^verbatim>\<open>reducers.hasOwnProperty(key)\<close> then calls
  that reducer with the key as its state and no action; otherwise it is the method of
  \<^verbatim>\<open>Object.prototype\<close>, which returns. The reads and writes of
  \<^verbatim>\<open>unexpectedKeyCache\<close>, a literal \<^verbatim>\<open>{}\<close> assigned \<^verbatim>\<open>true\<close>, return.
\<close>

fun filterUnexpectedKeys :: "reducer \<Rightarrow> string list \<Rightarrow> nat \<Rightarrow> (error + unit) \<times> nat" where
  "filterUnexpectedKeys hasOwnProperty [] n = (Inr (), n)"
| "filterUnexpectedKeys hasOwnProperty (key # keys) n =
     (case hasOwnProperty (Str key) Undefined n of
        (Inl e, n') \<Rightarrow> (Inl e, n')
      | (Inr owned, n') \<Rightarrow> filterUnexpectedKeys hasOwnProperty keys n')"

definition getUnexpectedStateShapeWarningMessage ::
  "environment \<Rightarrow> val \<Rightarrow> (string \<times> reducer) list \<Rightarrow> val \<Rightarrow> nat \<Rightarrow> (error + unit) \<times> nat"
where
  "getUnexpectedStateShapeWarningMessage env inputState reducers action n =
     (if reducers = [] then (Inr (), n)
      else if \<not> isPlainObject inputState
      then (if tagIsWord env inputState then (Inr (), n) else (Inl EngineTypeError, n))
      else (case map_of reducers ''hasOwnProperty'' of
              Some hasOwnProperty \<Rightarrow> filterUnexpectedKeys hasOwnProperty (own_keys inputState) n
            | None \<Rightarrow> (Inr (), n)))"

text \<open>
  \<^verbatim>\<open>nextState[key] = nextStateForKey\<close> on the literal \<^verbatim>\<open>{}\<close> that is \<open>nextState\<close>:
  as for \<^verbatim>\<open>finalReducers\<close>, the key \<^verbatim>\<open>__proto__\<close> adds no own property. (No key of
  \<^verbatim>\<open>finalReducers\<close> is \<^verbatim>\<open>__proto__\<close>, so the loop below never makes this
  assignment, and the prototype of \<open>nextState\<close> stays \<^verbatim>\<open>Object.prototype\<close>.)
\<close>

definition assignNextState :: "string \<Rightarrow> val \<Rightarrow> (string \<times> val) list \<Rightarrow> (string \<times> val) list" where
  "assignNextState key v nextState =
     (if key = ''__proto__'' \<and> map_of nextState key = None then nextState
      else AList.update key v nextState)"

text \<open>
  The loop of \<^verbatim>\<open>combination\<close> over the final reducers:
  \<^verbatim>\<open>
  for (let i = 0; i < finalReducerKeys.length; i++) {
    const key = finalReducerKeys[i]
    const reducer = finalReducers[key]
    const previousStateForKey = state[key]
    const nextStateForKey = reducer(previousStateForKey, action)
    if (typeof nextStateForKey === 'undefined') {
      throw new Error(getUndefinedStateErrorMessage(key, action))
    }
    nextState[key] = nextStateForKey
    hasChanged = hasChanged || nextStateForKey !== previousStateForKey
  }
  \<close>
  It carries \<open>hasChanged\<close> and the properties written to \<open>nextState\<close> so far.
\<close>

fun combinationLoop ::
  "environment \<Rightarrow> (string \<times> reducer) list \<Rightarrow> val \<Rightarrow> val \<Rightarrow> bool \<Rightarrow> (string \<times> val) list \<Rightarrow> nat
     \<Rightarrow> (error + bool \<times> (string \<times> val) list) \<times> nat"
where
  "combinationLoop env [] state action hasChanged nextState n = (Inr (hasChanged, nextState), n)"
| "combinationLoop env ((key, reducer) # rest) state action hasChanged nextState n =
     (case get_prop env state key of
        Inl e \<Rightarrow> (Inl e, n)
      | Inr previousStateForKey \<Rightarrow>
          (case reducer previousStateForKey action n of
             (Inl e, n') \<Rightarrow> (Inl e, n')
           | (Inr nextStateForKey, n') \<Rightarrow>
               if typeof nextStateForKey = TUndefined
               then (Inl (getUndefinedStateError env key action), n')
               else combinationLoop env rest state action
                      (hasChanged \<or> \<not> strict_eq nextStateForKey previousStateForKey)
                      (assignNextState key nextStateForKey nextState) n'))"

text \<open>
  \<^verbatim>\<open>
  return function combination(state = {}, action) {
    if (shapeAssertionError) { throw shapeAssertionError }
    if (process.env.NODE_ENV !== 'production') {
      const warningMessage = getUnexpectedStateShapeWarningMessage(
        state, finalReducers, action, unexpectedKeyCache)
      if (warningMessage) { warning(warningMessage) }
    }
    let hasChanged = false
    const nextState = {}
    for (...) {...}
    return hasChanged ? nextState : state
  }
  \<close>
  The default \<^verbatim>\<open>{}\<close> of \<open>state\<close> and the literal \<^verbatim>\<open>{}\<close> of \<open>nextState\<close> each
  allocate an object; \<open>nextState\<close> gets its identity before the reducers run.
\<close>

definition combination :: "environment \<Rightarrow> combined \<Rightarrow> reducer" where
  "combination env c state0 action n0 =
     (case (if state0 = Undefined then new_object [] n0 else (state0, n0)) of (state, n1) \<Rightarrow>
      (case (case shapeAssertionError c of
               Some e \<Rightarrow> if error_truthy e then Some e else None
             | None \<Rightarrow> None) of
         Some e \<Rightarrow> (Inl e, n1)
       | None \<Rightarrow>
           (case (if production env then (Inr (), n1)
                  else getUnexpectedStateShapeWarningMessage env state (finalReducers c) action n1) of
              (Inl e, n2) \<Rightarrow> (Inl e, n2)
            | (Inr u, n2) \<Rightarrow>
                (case combinationLoop env (finalReducers c) state action False [] (Suc n2) of
                   (Inl e, n3) \<Rightarrow> (Inl e, n3)
                 | (Inr (hasChanged, nextState), n3) \<Rightarrow>
                     (Inr (if hasChanged then Obj n2 Plain nextState else state), n3)))))"

section \<open>Store engine: \<open>createStore\<close>\<close>

text \<open>
  The variables the closures of one store share are the fields of a record:
  \<^verbatim>\<open>
  let currentReducer = reducer
  let currentState = preloadedState
  let currentListeners = []
  let nextListeners = currentListeners
  let isDispatching = false
  \<close>
  \<open>currentListeners\<close> and \<open>nextListeners\<close> are references to arrays, and the code
  depends on whether they refer to the same array, so the arrays live in a store of their
  own: \<open>arrays\<close> maps a reference to the contents of its array, and \<open>arrayCount\<close> is
  the number of arrays allocated so far, the reference of the next one.

  Each call of \<^verbatim>\<open>subscribe\<close> creates a closure \<^verbatim>\<open>unsubscribe\<close> with a variable
  \<^verbatim>\<open>isSubscribed\<close> and the listener it captured: \<open>subscriptions\<close> has one entry per
  call, and the position of the entry stands for the closure. Each call of the
  observable's \<^verbatim>\<open>subscribe\<close> creates a closure \<^verbatim>\<open>observeState\<close> around its observer:
  \<open>observers\<close> maps the identity of the closure to the observer.

  \<open>objectCount\<close> is the allocation counter of objects. \<open>invoked\<close> records the listeners
  the notification loops have called and \<open>delivered\<close> the calls of an observer's
  \<^verbatim>\<open>next\<close> with their argument, both in order; the code reads neither. \<open>outside\<close> is
  whatever state outside the store the callbacks of the application share.
\<close>

record 'x store =
  currentReducer :: reducer
  currentState :: val
  currentListeners :: nat
  nextListeners :: nat
  isDispatching :: bool
  arrays :: "nat \<Rightarrow> val list"
  arrayCount :: nat
  subscriptions :: "(val \<times> bool) list"
  observers :: "(nat \<times> val) list"
  objectCount :: nat
  invoked :: "val list"
  delivered :: "(val \<times> val) list"
  outside :: 'x

text \<open>
  A listener is a function value \<open>Fun f\<close>. What it does when called is a sequence of
  calls of the store's interface, given by the program of the application: it may
  subscribe a listener, call an \<^verbatim>\<open>unsubscribe\<close> closure it holds, read the state, or
  throw. (The spec has listeners call subscribe and unsubscribe, not dispatch; a listener
  that dispatches is outside this model.) An error thrown by a call ends the listener.
  The program is the body of each function of the application together with the
  environment the application runs in.
\<close>

datatype cmd = CallSubscribe val | CallUnsubscribe nat | CallGetState | Throw error

record program =
  functionBody :: "nat \<Rightarrow> cmd list"
  environmentOf :: environment

text \<open>
  \<^verbatim>\<open>
  function ensureCanMutateNextListeners() {
    if (nextListeners === currentListeners) { nextListeners = currentListeners.slice() }
  }
  \<close>
\<close>

definition ensureCanMutateNextListeners :: "'x store \<Rightarrow> 'x store" where
  "ensureCanMutateNextListeners st =
     (if nextListeners st = currentListeners st
      then st\<lparr>arrays := (arrays st)(arrayCount st := arrays st (currentListeners st)),
              nextListeners := arrayCount st,
              arrayCount := Suc (arrayCount st)\<rparr>
      else st)"

text \<open>
  \<^verbatim>\<open>
  function getState() {
    if (isDispatching) { throw new Error('You may not call store.getState() while ...') }
    return currentState
  }
  \<close>
\<close>

definition getState :: "'x store \<Rightarrow> error + val" where
  "getState st = (if isDispatching st then Inl ReentrantRead else Inr (currentState st))"

text \<open>
  \<^verbatim>\<open>
  function subscribe(listener) {
    if (typeof listener !== 'function') { throw new Error('Expected the listener to be a function.') }
    if (isDispatching) { throw new Error('You may not call store.subscribe() while ...') }
    let isSubscribed = true
    ensureCanMutateNextListeners()
    nextListeners.push(listener)
    return function unsubscribe() {...}
  }
  \<close>
  The result is the position of the new closure in \<open>subscriptions\<close>.
\<close>

definition subscribe :: "val \<Rightarrow> 'x store \<Rightarrow> (error + nat) \<times> 'x store" where
  "subscribe listener st =
     (if typeof listener \<noteq> TFunction then (Inl InvalidListener, st)
      else if isDispatching st then (Inl ReentrantSubscribe, st)
      else
        (let st1 = st\<lparr>subscriptions := subscriptions st @ [(listener, True)]\<rparr>;
             st2 = ensureCanMutateNextListeners st1;
             st3 = st2\<lparr>arrays := (arrays st2)
                      (nextListeners st2 := arrays st2 (nextListeners st2) @ [listener])\<rparr>
         in (Inr (length (subscriptions st)), st3)))"

text \<open>
  \<^verbatim>\<open>Array.prototype.indexOf\<close> compares with \<^verbatim>\<open>===\<close> and gives \<open>-1\<close> when nothing
  is found; \<^verbatim>\<open>splice(index, 1)\<close> counts a negative index from the end of the array and
  removes one element there, if there is one.
\<close>

fun indexOf :: "val list \<Rightarrow> val \<Rightarrow> int" where
  "indexOf [] v = -1"
| "indexOf (x # xs) v =
     (if strict_eq x v then 0 else (let i = indexOf xs v in if i < 0 then -1 else i + 1))"

definition splice1 :: "int \<Rightarrow> 'a list \<Rightarrow> 'a list" where
  "splice1 index xs =
     (let len = int (length xs);
          start = (if index < 0 then max (len + index) 0 else min index len)
      in take (nat start) xs @ drop (Suc (nat start)) xs)"

text \<open>
  \<^verbatim>\<open>
  return function unsubscribe() {
    if (!isSubscribed) { return }
    if (isDispatching) { throw new Error('You may not unsubscribe from a store listener while ...') }
    isSubscribed = false
    ensureCanMutateNextListeners()
    const index = nextListeners.indexOf(listener)
    nextListeners.splice(index, 1)
  }
  \<close>
  \<open>unsubscribe t\<close> is a call of the closure that the \<open>t\<close>-th call of \<open>subscribe\<close>
  returned. Before that call of \<open>subscribe\<close> there is no such function to call.
\<close>

definition unsubscribe :: "nat \<Rightarrow> 'x store \<Rightarrow> (error + unit) \<times> 'x store" where
  "unsubscribe t st =
     (if length (subscriptions st) \<le> t then (Inl EngineTypeError, st)
      else
        (case subscriptions st ! t of (listener, isSubscribed) \<Rightarrow>
           if \<not> isSubscribed then (Inr (), st)
           else if isDispatching st then (Inl ReentrantUnsubscribe, st)
           else
             (let st1 = st\<lparr>subscriptions := (subscriptions st)[t := (listener, False)]\<rparr>;
                  st2 = ensureCanMutateNextListeners st1;
                  index = indexOf (arrays st2 (nextListeners st2)) listener;
                  st3 = st2\<lparr>arrays := (arrays st2)
                           (nextListeners st2 := splice1 index (arrays st2 (nextListeners st2)))\<rparr>
              in (Inr (), st3))))"

text \<open>The body of a function of the application, call by call.\<close>

fun exec :: "cmd \<Rightarrow> 'x store \<Rightarrow> (error + unit) \<times> 'x store" where
  "exec (CallSubscribe listener) st =
     (case subscribe listener st of
        (Inl e, st') \<Rightarrow> (Inl e, st')
      | (Inr t, st') \<Rightarrow> (Inr (), st'))"
| "exec (CallUnsubscribe t) st = unsubscribe t st"
| "exec CallGetState st = (case getState st of Inl e \<Rightarrow> (Inl e, st) | Inr v \<Rightarrow> (Inr (), st))"
| "exec (Throw e) st = (Inl e, st)"

fun run :: "cmd list \<Rightarrow> 'x store \<Rightarrow> (error + unit) \<times> 'x store" where
  "run [] st = (Inr (), st)"
| "run (c # cs) st =
     (case exec c st of
        (Inl e, st') \<Rightarrow> (Inl e, st')
      | (Inr u, st') \<Rightarrow> run cs st')"

text \<open>Calling a value: only a function can be called.\<close>

definition callFunction :: "program \<Rightarrow> val \<Rightarrow> 'x store \<Rightarrow> (error + unit) \<times> 'x store" where
  "callFunction fs v st =
     (case v of Fun f \<Rightarrow> run (functionBody fs f) st | _ \<Rightarrow> (Inl EngineTypeError, st))"

text \<open>
  The closure \<^verbatim>\<open>observeState\<close> of the observable:
  \<^verbatim>\<open>
  function observeState() {
    if (observer.next) { observer.next(getState()) }
  }
  \<close>
\<close>

definition observeState :: "program \<Rightarrow> val \<Rightarrow> 'x store \<Rightarrow> (error + unit) \<times> 'x store" where
  "observeState fs observer st =
     (case get_prop (environmentOf fs) observer ''next'' of
        Inl e \<Rightarrow> (Inl e, st)
      | Inr next \<Rightarrow>
          if truthy next then
            (case getState st of
               Inl e \<Rightarrow> (Inl e, st)
             | Inr s \<Rightarrow>
                 (case next of
                    Fun f \<Rightarrow> callFunction fs next (st\<lparr>delivered := delivered st @ [(next, s)]\<rparr>)
                  | _ \<Rightarrow> (Inl EngineTypeError, st)))
          else (Inr (), st))"

text \<open>
  A listener of the registry is a function of the application or an \<open>observeState\<close>
  closure.
\<close>

definition callListener :: "program \<Rightarrow> val \<Rightarrow> 'x store \<Rightarrow> (error + unit) \<times> 'x store" where
  "callListener fs listener st =
     (let st1 = st\<lparr>invoked := invoked st @ [listener]\<rparr>
      in case listener of
           Fun f \<Rightarrow>
             (case map_of (observers st1) f of
                Some observer \<Rightarrow> observeState fs observer st1
              | None \<Rightarrow> callFunction fs listener st1)
         | _ \<Rightarrow> (Inl EngineTypeError, st1))"

text \<open>
  The notification loop of \<^verbatim>\<open>dispatch\<close>:
  \<^verbatim>\<open>
  for (let i = 0; i < listeners.length; i++) {
    const listener = listeners[i]
    listener()
  }
  \<close>
  \<open>listeners\<close> is a reference: the length and the element are read from the array as it
  is at each turn. Nothing in the loop itself bounds the number of turns, so its result is
  optional: \<open>None\<close> is a loop that does not end.
\<close>

partial_function (option) notify ::
  "program \<Rightarrow> nat \<Rightarrow> nat \<Rightarrow> 'x store \<Rightarrow> ((error + unit) \<times> 'x store) option"
where
  "notify fs listeners i st =
     (if i < length (arrays st listeners)
      then (case callListener fs (arrays st listeners ! i) st of
              (Inl e, st') \<Rightarrow> Some (Inl e, st')
            | (Inr u, st') \<Rightarrow> notify fs listeners (Suc i) st')
      else Some (Inr (), st))"

text \<open>
  \<^verbatim>\<open>
  function dispatch(action) {
    if (!isPlainObject(action)) { throw new Error('Actions must be plain objects. ...') }
    if (typeof action.type === 'undefined') { throw new Error('Actions may not have an undefined "type" property. ...') }
    if (isDispatching) { throw new Error('Reducers may not dispatch actions.') }
    try {
      isDispatching = true
      currentState = currentReducer(currentState, action)
    } finally {
      isDispatching = false
    }
    const listeners = (currentListeners = nextListeners)
    for (...) {...}
    return action
  }
  \<close>
  A reducer is a function of its arguments (and of the allocation counter): it has no
  access to the variables of the store.
\<close>

definition dispatch ::
  "program \<Rightarrow> val \<Rightarrow> 'x store \<Rightarrow> ((error + val) \<times> 'x store) option"
where
  "dispatch fs action st =
     (if \<not> isPlainObject action then Some (Inl InvalidAction, st)
      else if (case get_prop (environmentOf fs) action ''type'' of
                 Inr t \<Rightarrow> typeof t = TUndefined
               | Inl e \<Rightarrow> False)
      then Some (Inl MissingActionType, st)
      else if isDispatching st then Some (Inl ReentrantDispatch, st)
      else
        (let st1 = st\<lparr>isDispatching := True\<rparr>
         in case currentReducer st1 (currentState st1) action (objectCount st1) of
              (Inl e, n) \<Rightarrow> Some (Inl e, st1\<lparr>objectCount := n, isDispatching := False\<rparr>)
            | (Inr s, n) \<Rightarrow>
                (let st2 = st1\<lparr>objectCount := n, currentState := s, isDispatching := False\<rparr>;
                     st3 = st2\<lparr>currentListeners := nextListeners st2\<rparr>;
                     listeners = currentListeners st3
                 in case notify fs listeners 0 st3 of
                      None \<Rightarrow> None
                    | Some (Inl e, st4) \<Rightarrow> Some (Inl e, st4)
                    | Some (Inr u, st4) \<Rightarrow> Some (Inr action, st4))))"

text \<open>
  \<^verbatim>\<open>
  function replaceReducer(nextReducer) {
    if (typeof nextReducer !== 'function') { throw new Error('Expected the nextReducer to be a function.') }
    currentReducer = nextReducer
    dispatch({ type: ActionTypes.REPLACE })
  }
  \<close>
\<close>

definition replaceReducer ::
  "program \<Rightarrow> rentry \<Rightarrow> 'x store \<Rightarrow> ((error + unit) \<times> 'x store) option"
where
  "replaceReducer fs nextReducer st =
     (case nextReducer of
        NotCallable v \<Rightarrow> Some (Inl InvalidReducer, st)
      | Callable r \<Rightarrow>
          (case new_object [(''type'', Str ActionTypes_REPLACE)] (objectCount st) of
             (action, n) \<Rightarrow>
               (case dispatch fs action (st\<lparr>currentReducer := r, objectCount := n\<rparr>) of
                  None \<Rightarrow> None
                | Some (Inl e, st') \<Rightarrow> Some (Inl e, st')
                | Some (Inr a, st') \<Rightarrow> Some (Inr (), st'))))"

text \<open>
  The observable's \<^verbatim>\<open>subscribe\<close>:
  \<^verbatim>\<open>
  subscribe(observer) {
    if (typeof observer !== 'object') { throw new TypeError('Expected the observer to be an object.') }
    function observeState() {...}
    observeState()
    const unsubscribe = outerSubscribe(observeState)
    return { unsubscribe }
  }
  \<close>
  The closure \<open>observeState\<close> is a new function: its identity is the allocation counter.
  The first call of it is not a call by a notification loop. The result is the
  \<^verbatim>\<open>unsubscribe\<close> closure the returned object holds.
\<close>

definition observableSubscribe ::
  "program \<Rightarrow> val \<Rightarrow> 'x store \<Rightarrow> (error + nat) \<times> 'x store"
where
  "observableSubscribe fs observer st =
     (if typeof observer \<noteq> TObject then (Inl InvalidObserver, st)
      else
        (let closure = objectCount st;
             st1 = st\<lparr>observers := (closure, observer) # observers st,
                      objectCount := Suc (objectCount st)\<rparr>
         in case observeState fs observer st1 of
              (Inl e, st2) \<Rightarrow> (Inl e, st2)
            | (Inr u, st2) \<Rightarrow>
                (case subscribe (Fun closure) st2 of
                   (Inl e, st3) \<Rightarrow> (Inl e, st3)
                 | (Inr t, st3) \<Rightarrow> (Inr t, st3\<lparr>objectCount := Suc (objectCount st3)\<rparr>))))"

text \<open>
  What a dispatch function is: it takes an action and returns a value or throws, and it
  may change the store on the way. The object a store constructor returns holds the
  methods of the store; \<open>observableSubscribe_of\<close> is the \<^verbatim>\<open>subscribe\<close> of the object
  that the method \<^verbatim>\<open>[$$observable]\<close> returns.
\<close>

type_synonym 'x dispatcher = "val \<Rightarrow> 'x store \<Rightarrow> ((error + val) \<times> 'x store) option"

record 'x storeObject =
  dispatch_of :: "'x dispatcher"
  subscribe_of :: "val \<Rightarrow> 'x store \<Rightarrow> (error + nat) \<times> 'x store"
  getState_of :: "'x store \<Rightarrow> error + val"
  replaceReducer_of :: "rentry \<Rightarrow> 'x store \<Rightarrow> ((error + unit) \<times> 'x store) option"
  observableSubscribe_of :: "val \<Rightarrow> 'x store \<Rightarrow> (error + nat) \<times> 'x store"

text \<open>
  The part of \<^verbatim>\<open>createStore\<close> that follows the two branches on \<open>enhancer\<close>:
  \<^verbatim>\<open>
  if (typeof reducer !== 'function') { throw new Error('Expected the reducer to be a function.') }
  let currentReducer = reducer
  ...
  dispatch({ type: ActionTypes.INIT })
  return { dispatch, subscribe, getState, replaceReducer, [$$observable]: observable }
  \<close>
  It returns the object of the methods together with the variables they share. \<open>fs\<close> is
  the program of the application, \<open>n\<close> the allocation counter and \<open>x\<close> the state
  outside the store when the store is created.
\<close>

type_synonym 'x created = "(error + 'x storeObject \<times> 'x store) option"

definition createStore_body :: "program \<Rightarrow> rentry \<Rightarrow> val \<Rightarrow> nat \<Rightarrow> 'x \<Rightarrow> 'x created" where
  "createStore_body fs reducer preloadedState n x =
     (case reducer of
        NotCallable v \<Rightarrow> Some (Inl InvalidReducer)
      | Callable r \<Rightarrow>
          (case new_object [(''type'', Str ActionTypes_INIT)] n of
             (action, n') \<Rightarrow>
               (case dispatch fs action
                       \<lparr>currentReducer = r, currentState = preloadedState,
                        currentListeners = 0, nextListeners = 0, isDispatching = False,
                        arrays = (\<lambda>a. []), arrayCount = 1, subscriptions = [],
                        observers = [], objectCount = n', invoked = [], delivered = [],
                        outside = x\<rparr> of
                  None \<Rightarrow> None
                | Some (Inl e, st) \<Rightarrow> Some (Inl e)
                | Some (Inr a, st) \<Rightarrow>
                    Some (Inr (\<lparr>dispatch_of = dispatch fs, subscribe_of = subscribe,
                                getState_of = getState, replaceReducer_of = replaceReducer fs,
                                observableSubscribe_of = observableSubscribe fs\<rparr>, st)))))"

text \<open>
  \<^verbatim>\<open>
  export default function createStore(reducer, preloadedState, enhancer) {
    if (typeof preloadedState === 'function' && typeof enhancer === 'undefined') {
      enhancer = preloadedState
      preloadedState = undefined
    }
    if (typeof enhancer !== 'undefined') {
      if (typeof enhancer !== 'function') { throw new Error('Expected the enhancer to be a function.') }
      return enhancer(createStore)(reducer, preloadedState)
    }
    ...
  }
  \<close>
  An argument that is left out is \<^verbatim>\<open>undefined\<close>. An enhancer is a function of the
  application: \<open>enhancers f\<close> is what the function \<open>Fun f\<close> does when it is called
  with a store constructor and the result with a reducer and a preloaded state. The
  constructor it is handed is \<^verbatim>\<open>createStore\<close> itself, which it may call with an
  enhancer again, so \<^verbatim>\<open>createStore\<close> is unrolled a given number of times:
  \<open>createStore k\<close> is the constructor in which \<open>k\<close> calls of \<^verbatim>\<open>createStore\<close> may
  be nested, and beyond that depth it does not return (\<open>None\<close>).
\<close>

type_synonym 'x creator = "rentry \<Rightarrow> val \<Rightarrow> val \<Rightarrow> nat \<Rightarrow> 'x \<Rightarrow> 'x created"

type_synonym 'x enhancer = "'x creator \<Rightarrow> rentry \<Rightarrow> val \<Rightarrow> nat \<Rightarrow> 'x \<Rightarrow> 'x created"

primrec createStore :: "nat \<Rightarrow> (nat \<Rightarrow> 'x enhancer) \<Rightarrow> program \<Rightarrow> 'x creator" where
  "createStore 0 enhancers fs = (\<lambda>reducer preloadedState enhancer n x. None)"
| "createStore (Suc k) enhancers fs =
     (\<lambda>reducer preloadedState0 enhancer0 n x.
        (case (if typeof preloadedState0 = TFunction \<and> typeof enhancer0 = TUndefined
               then (Undefined, preloadedState0)
               else (preloadedState0, enhancer0)) of
           (preloadedState, enhancer) \<Rightarrow>
             if typeof enhancer \<noteq> TUndefined
             then (case enhancer of
                     Fun f \<Rightarrow> enhancers f (createStore k enhancers fs) reducer preloadedState n x
                   | _ \<Rightarrow> Some (Inl InvalidEnhancer))
             else createStore_body fs reducer preloadedState n x))"

section \<open>Middleware pipeline: \<open>applyMiddleware\<close>\<close>

text \<open>
  A middleware is \<^verbatim>\<open>middlewareAPI => next => action => result\<close>. The API holds the
  store's \<^verbatim>\<open>getState\<close> and a \<^verbatim>\<open>dispatch\<close> that forwards to the variable
  \<^verbatim>\<open>dispatch\<close> of \<^verbatim>\<open>applyMiddleware\<close>.
\<close>

record 'x middlewareAPI =
  api_getState :: "'x store \<Rightarrow> error + val"
  api_dispatch :: "'x dispatcher"

type_synonym 'x middleware = "'x middlewareAPI \<Rightarrow> 'x dispatcher \<Rightarrow> 'x dispatcher"

text \<open>
  \<^verbatim>\<open>
  const middlewareAPI = { getState: store.getState, dispatch: (...args) => dispatch(...args) }
  chain = middlewares.map(middleware => middleware(middlewareAPI))
  dispatch = compose(...chain)(store.dispatch)
  \<close>
  Once the chain is built, the variable \<^verbatim>\<open>dispatch\<close> is the composed chain, and the
  chain is made of wrappers that hold the API: the chain is defined through itself. A
  middleware that dispatches through the API whenever it is called never returns, so the
  chain is unrolled a given number of times: \<open>chainDispatch k\<close> is the chain in which
  \<open>k\<close> dispatches through the API may be nested, and beyond that depth it does not
  return (\<open>None\<close>). In the model a middleware builds its wrapper without calling the API;
  the first value of the variable \<^verbatim>\<open>dispatch\<close>, which throws
  ``Dispatching while constructing your middleware is not allowed'', is the value of the
  variable during that time only and is left out.
\<close>

fun chainDispatch ::
  "nat \<Rightarrow> 'x middleware list \<Rightarrow> ('x store \<Rightarrow> error + val) \<Rightarrow> 'x dispatcher \<Rightarrow> 'x dispatcher"
where
  "chainDispatch 0 middlewares storeGetState storeDispatch = (\<lambda>action st. None)"
| "chainDispatch (Suc k) middlewares storeGetState storeDispatch =
     compose
       (map (\<lambda>middleware.
               middleware \<lparr>api_getState = storeGetState,
                            api_dispatch = chainDispatch k middlewares storeGetState storeDispatch\<rparr>)
            middlewares)
       storeDispatch"

text \<open>
  \<^verbatim>\<open>
  export default function applyMiddleware(...middlewares) {
    return createStore => (...args) => {
      const store = createStore(...args)
      ...
      return { ...store, dispatch }
    }
  }
  \<close>
\<close>

definition applyMiddleware ::
  "nat \<Rightarrow> 'x middleware list \<Rightarrow> ('a \<Rightarrow> (error + 'x storeObject \<times> 'x store) option)
     \<Rightarrow> 'a \<Rightarrow> (error + 'x storeObject \<times> 'x store) option"
where
  "applyMiddleware depth middlewares createStore' args =
     (case createStore' args of
        None \<Rightarrow> None
      | Some (Inl e) \<Rightarrow> Some (Inl e)
      | Some (Inr (store, st)) \<Rightarrow>
          Some (Inr (store\<lparr>dispatch_of :=
                             chainDispatch depth middlewares (getState_of store) (dispatch_of store)\<rparr>,
                     st)))"

section \<open>Vocabulary of the properties of the reducer composer\<close>

text \<open>
  \<open>previousStateForKey env state key\<close> is \<^verbatim>\<open>state[key]\<close> of a state that is an
  object: its own property of that key if it has one, and what it inherits otherwise.
\<close>

definition previousStateForKey :: "environment \<Rightarrow> val \<Rightarrow> string \<Rightarrow> val" where
  "previousStateForKey env state key =
     (case get_prop env state key of Inr v \<Rightarrow> v | Inl e \<Rightarrow> Undefined)"

text \<open>
  What a reducer does with a previous state and an action, from the allocation counter
  \<open>n\<close> on (a reducer that allocates returns an object whose identity is the counter it
  was given, so its result depends on it): \<open>keeps\<close> when it returns a value identical
  to the previous state, \<open>changes\<close> when it returns a value that is not. Either way it
  returns without throwing, the value is not \<^verbatim>\<open>undefined\<close>, and the counter does not
  go back.
\<close>

definition keeps :: "nat \<Rightarrow> reducer \<Rightarrow> val \<Rightarrow> val \<Rightarrow> bool" where
  "keeps n r prev action =
     (\<forall>m\<ge>n. \<exists>v m'. r prev action m = (Inr v, m') \<and> m \<le> m' \<and> v \<noteq> Undefined \<and> strict_eq v prev)"

definition changes :: "nat \<Rightarrow> reducer \<Rightarrow> val \<Rightarrow> val \<Rightarrow> bool" where
  "changes n r prev action =
     (\<forall>m\<ge>n. \<exists>v m'. r prev action m = (Inr v, m') \<and> m \<le> m' \<and> v \<noteq> Undefined \<and> \<not> strict_eq v prev)"

text \<open>
  The composed reducer is quiet for a state and an action when the check that runs
  outside production returns, without having called a reducer: in production, and
  outside it for instance when the state is a plain object and no final reducer has the
  key \<^verbatim>\<open>hasOwnProperty\<close>.
\<close>

definition quiet :: "environment \<Rightarrow> combined \<Rightarrow> val \<Rightarrow> val \<Rightarrow> bool" where
  "quiet env c state action =
     (production env
      \<or> (\<forall>n. getUnexpectedStateShapeWarningMessage env state (finalReducers c) action n = (Inr (), n)))"

text \<open>
  The entries of a reducer mapping that are functions
  (\<^verbatim>\<open>typeof reducers[key] === 'function'\<close>), in the order of the mapping.
\<close>

fun isCallable :: "rentry \<Rightarrow> bool" where
  "isCallable (Callable r) = True"
| "isCallable (NotCallable v) = False"

fun callableEntries :: "(string \<times> rentry) list \<Rightarrow> (string \<times> reducer) list" where
  "callableEntries [] = []"
| "callableEntries ((k, Callable r) # es) = (k, r) # callableEntries es"
| "callableEntries ((k, NotCallable v) # es) = callableEntries es"

text \<open>
  The probes of \<^verbatim>\<open>assertReducerShape\<close> call a reducer with \<^verbatim>\<open>undefined\<close> and an action
  \<^verbatim>\<open>{ type: t }\<close>. A reducer passes when it returns a defined value for the
  initialization type and for the random type; it fails when it returns \<^verbatim>\<open>undefined\<close>
  for the initialization type, or a defined value for it and \<^verbatim>\<open>undefined\<close> for the
  random type (the random probe is made only after the first one has passed). Its probes
  return when it does the one or the other: it does not throw while it is probed.
  \<open>failedProbe\<close> is the probe the error then names.
\<close>

definition returnsUndefinedFor :: "reducer \<Rightarrow> string \<Rightarrow> bool" where
  "returnsUndefinedFor r t =
     (\<forall>i m. \<exists>m'. r Undefined (Obj i Plain [(''type'', Str t)]) m = (Inr Undefined, m'))"

definition returnsDefinedFor :: "reducer \<Rightarrow> string \<Rightarrow> bool" where
  "returnsDefinedFor r t =
     (\<forall>i m. \<exists>v m'. r Undefined (Obj i Plain [(''type'', Str t)]) m = (Inr v, m') \<and> v \<noteq> Undefined)"

definition passesProbes :: "reducer \<Rightarrow> string \<Rightarrow> bool" where
  "passesProbes r suffix =
     (returnsDefinedFor r ActionTypes_INIT \<and> returnsDefinedFor r (PROBE_UNKNOWN_ACTION @ suffix))"

definition failsProbe :: "reducer \<Rightarrow> string \<Rightarrow> bool" where
  "failsProbe r suffix =
     (returnsUndefinedFor r ActionTypes_INIT
      \<or> (returnsDefinedFor r ActionTypes_INIT \<and> returnsUndefinedFor r (PROBE_UNKNOWN_ACTION @ suffix)))"

definition probesReturn :: "reducer \<Rightarrow> string \<Rightarrow> bool" where
  "probesReturn r suffix = (passesProbes r suffix \<or> failsProbe r suffix)"

definition failedProbe :: "reducer \<Rightarrow> rru_phase" where
  "failedProbe r = (if returnsUndefinedFor r ActionTypes_INIT then DuringInitialization else DuringRandomProbe)"

section \<open>Vocabulary of the properties of the store\<close>

text \<open>
  A store is well formed when \<open>nextListeners\<close> refers to an allocated array; every
  store that \<open>createStore\<close> returns is, and the operations keep it so. An action is
  valid when it is a plain object whose \<open>type\<close>, as the program's environment reads
  it, is not \<^verbatim>\<open>undefined\<close>. The registry is the array \<open>nextListeners\<close> refers to:
  the listeners in the order of their registration. \<open>callAll\<close> calls the listeners of a list one after
  the other and stops at the first that throws. \<open>afterReducer st s n\<close> is the store at
  the start of the notification phase of a dispatch of \<open>st\<close> whose reducer returned
  \<open>s\<close> and left the allocation counter at \<open>n\<close>.
\<close>

definition wf_store :: "'x store \<Rightarrow> bool" where
  "wf_store st = (nextListeners st < arrayCount st)"

definition validAction :: "program \<Rightarrow> val \<Rightarrow> bool" where
  "validAction fs action =
     (isPlainObject action
      \<and> (case get_prop (environmentOf fs) action ''type'' of
            Inr t \<Rightarrow> t \<noteq> Undefined
          | Inl e \<Rightarrow> False))"

fun callAll :: "program \<Rightarrow> val list \<Rightarrow> 'x store \<Rightarrow> (error + unit) \<times> 'x store" where
  "callAll fs [] st = (Inr (), st)"
| "callAll fs (l # ls) st =
     (case callListener fs l st of
        (Inl e, st') \<Rightarrow> (Inl e, st')
      | (Inr u, st') \<Rightarrow> callAll fs ls st')"

definition afterReducer :: "'x store \<Rightarrow> val \<Rightarrow> nat \<Rightarrow> 'x store" where
  "afterReducer st s n = st\<lparr>objectCount := n, currentState := s, currentListeners := nextListeners st\<rparr>"

definition registry :: "'x store \<Rightarrow> val list" where
  "registry st = arrays st (nextListeners st)"

text \<open>
  The listeners of a store read as one list, without arrays and references: the registry
  and, for each \<^verbatim>\<open>unsubscribe\<close> closure, its listener and whether it is still
  subscribed. On that reading \<^verbatim>\<open>subscribe\<close> appends its listener to the registry and
  adds a closure, and a closure that is still subscribed removes the first registration
  of its listener from the registry and is subscribed no longer; every other call
  leaves the two as they are. \<open>cmdEffect\<close>, \<open>bodyEffect\<close>, \<open>observerEffect\<close>,
  \<open>listenerEffect\<close> and \<open>phaseEffect\<close> are what a call of the store's interface, the
  body of a function, the closure around an observer, a listener of the registry and the
  listeners of a whole notification phase, called one after the other outside a reducer,
  do to the listeners read that way, and whether they return (\<open>True\<close>) or throw; what
  throws ends the phase.

  A store is consistent when its registry holds the listeners of the closures that are
  still subscribed, each as often as there are such closures for it, and all of them are
  functions; every store that \<open>createStore\<close> returns is, and the operations keep it
  so. \<open>returned r\<close> says that the result \<open>r\<close> is a value, not an error.
\<close>

type_synonym listening = "val list \<times> (val \<times> bool) list"

definition listening :: "'x store \<Rightarrow> listening" where
  "listening st = (registry st, subscriptions st)"

fun returned :: "error + 'a \<Rightarrow> bool" where
  "returned (Inr v) = True"
| "returned (Inl e) = False"

fun cmdEffect :: "cmd \<Rightarrow> listening \<Rightarrow> bool \<times> listening" where
  "cmdEffect (CallSubscribe l) (reg, subs) =
     (if typeof l = TFunction then (True, (reg @ [l], subs @ [(l, True)])) else (False, (reg, subs)))"
| "cmdEffect (CallUnsubscribe t) (reg, subs) =
     (if t < length subs
      then (case subs ! t of
              (l, isSubscribed) \<Rightarrow>
                if isSubscribed then (True, (remove1 l reg, subs[t := (l, False)]))
                else (True, (reg, subs)))
      else (False, (reg, subs)))"
| "cmdEffect CallGetState (reg, subs) = (True, (reg, subs))"
| "cmdEffect (Throw e) (reg, subs) = (False, (reg, subs))"

fun bodyEffect :: "cmd list \<Rightarrow> listening \<Rightarrow> bool \<times> listening" where
  "bodyEffect [] x = (True, x)"
| "bodyEffect (c # cs) x =
     (case cmdEffect c x of
        (False, x') \<Rightarrow> (False, x')
      | (True, x') \<Rightarrow> bodyEffect cs x')"

definition observerEffect :: "program \<Rightarrow> val \<Rightarrow> listening \<Rightarrow> bool \<times> listening" where
  "observerEffect fs observer x =
     (case get_prop (environmentOf fs) observer ''next'' of
        Inl e \<Rightarrow> (False, x)
      | Inr nextMethod \<Rightarrow>
          if truthy nextMethod
          then (case nextMethod of Fun g \<Rightarrow> bodyEffect (functionBody fs g) x | _ \<Rightarrow> (False, x))
          else (True, x))"

definition listenerEffect ::
  "program \<Rightarrow> (nat \<times> val) list \<Rightarrow> val \<Rightarrow> listening \<Rightarrow> bool \<times> listening"
where
  "listenerEffect fs obs l x =
     (case l of
        Fun f \<Rightarrow>
          (case map_of obs f of
             None \<Rightarrow> bodyEffect (functionBody fs f) x
           | Some observer \<Rightarrow> observerEffect fs observer x)
      | _ \<Rightarrow> (False, x))"

fun phaseEffect ::
  "program \<Rightarrow> (nat \<times> val) list \<Rightarrow> val list \<Rightarrow> listening \<Rightarrow> bool \<times> listening"
where
  "phaseEffect fs obs [] x = (True, x)"
| "phaseEffect fs obs (l # ls) x =
     (case listenerEffect fs obs l x of
        (False, x') \<Rightarrow> (False, x')
      | (True, x') \<Rightarrow> phaseEffect fs obs ls x')"

definition consistent :: "'x store \<Rightarrow> bool" where
  "consistent st =
     (mset (registry st) = mset (map fst (filter snd (subscriptions st)))
      \<and> list_all (\<lambda>l. typeof l = TFunction) (registry st))"

text \<open>
  Two notions of the proofs. No call of the store's interface writes to the array \<open>a\<close>
  of a store in which \<open>a\<close> is allocated and is not the array that
  \<open>ensureCanMutateNextListeners\<close> would leave in \<open>nextListeners\<close>. Two stores have
  the same control when they agree on the variables a listener cannot change.
\<close>

definition untouchable :: "nat \<Rightarrow> 'x store \<Rightarrow> bool" where
  "untouchable a st =
     (a < arrayCount st \<and> (nextListeners st = currentListeners st \<or> nextListeners st \<noteq> a))"

definition sameControl :: "'x store \<Rightarrow> 'x store \<Rightarrow> bool" where
  "sameControl st st' =
     (currentListeners st' = currentListeners st \<and> currentState st' = currentState st
      \<and> isDispatching st' = isDispatching st \<and> invoked st' = invoked st
      \<and> observers st' = observers st)"

section \<open>Example reducers\<close>

text \<open>
  An environment outside production or in it, in which a plain object inherits the
  methods of \<^verbatim>\<open>Object.prototype\<close> and nothing else is inherited, every tag is a word,
  every value can be printed, and a function that has become a prototype refuses the keys the standard names.
\<close>

definition ex_objectPrototype :: "(string \<times> val) list" where
  "ex_objectPrototype =
     [(''constructor'', Fun 1000), (''hasOwnProperty'', Fun 1001), (''isPrototypeOf'', Fun 1002),
      (''propertyIsEnumerable'', Fun 1003), (''toLocaleString'', Fun 1004),
      (''toString'', Fun 1005), (''valueOf'', Fun 1006), (''__proto__'', Obj 999 Exotic [])]"

definition ex_environment :: "bool \<Rightarrow> environment" where
  "ex_environment inProduction =
     \<lparr>production = inProduction,
      inherited = (\<lambda>v key. if isPlainObject v
                            then (case map_of ex_objectPrototype key of Some x \<Rightarrow> x | None \<Rightarrow> Undefined)
                            else Undefined),
      tagIsWord = (\<lambda>v. True),
      printable = (\<lambda>v. True),
      refusesAssignment = (\<lambda>key. key \<in> set [''length'', ''name'', ''arguments'', ''caller''])\<rparr>"

text \<open>
  \<^verbatim>\<open>action.type\<close> as the example reducers read it, of an action that inherits no
  \<^verbatim>\<open>type\<close>: reading it of \<^verbatim>\<open>undefined\<close> or \<^verbatim>\<open>null\<close> throws.
\<close>

definition ex_type :: "val \<Rightarrow> error + val" where
  "ex_type action =
     (if action = Undefined \<or> action = Null then Inl EngineTypeError
      else Inr (case own_prop action ''type'' of Some t \<Rightarrow> t | None \<Rightarrow> Undefined))"

text \<open>
  \<^verbatim>\<open>(state, action) => (action.type === 'INC' || state === undefined) ? {} : state\<close>
  and \<^verbatim>\<open>(state = null, action) => state\<close>, a mapping \<^verbatim>\<open>{a: ..., b: ..., c: 1}\<close> of
  them, a state with one key more than the mapping has, and an action of a given type.
\<close>

definition ex_fresh_on_inc :: reducer where
  "ex_fresh_on_inc state action m =
     (case ex_type action of
        Inl e \<Rightarrow> (Inl e, m)
      | Inr t \<Rightarrow>
          if t = Str ''INC'' \<or> state = Undefined
          then (Inr (Obj m Plain []), Suc m)
          else (Inr state, m))"

definition ex_ignore :: reducer where
  "ex_ignore state action m = (if state = Undefined then (Inr Null, m) else (Inr state, m))"

definition ex_reducers :: "(string \<times> rentry) list" where
  "ex_reducers = [(''a'', Callable ex_fresh_on_inc), (''b'', Callable ex_ignore), (''c'', NotCallable (Num 1))]"

definition ex_state :: val where
  "ex_state = Obj 7 Plain [(''a'', Obj 5 Plain []), (''b'', Obj 6 Plain []), (''extra'', Num 7)]"

definition ex_action :: "string \<Rightarrow> val" where
  "ex_action t = Obj 8 Plain [(''type'', Str t)]"

text \<open>
  \<^verbatim>\<open>(state = 0) => state\<close>; \<^verbatim>\<open>(state, action) => state\<close>, which has no default
  state; and \<^verbatim>\<open>(state, action) => { state.items; return state }\<close>, which throws
  when there is no state to read.
\<close>

definition ex_zero :: reducer where
  "ex_zero state action m = (if state = Undefined then (Inr (Num 0), m) else (Inr state, m))"

definition ex_bad :: reducer where
  "ex_bad state action m = (Inr state, m)"

definition ex_reads_state :: reducer where
  "ex_reads_state state action m =
     (if state = Undefined \<or> state = Null then (Inl EngineTypeError, m) else (Inr state, m))"

text \<open>
  \<^verbatim>\<open>(state = null, action) => action.type === 'RESET' ? null : state\<close>, registered
  under the key \<^verbatim>\<open>hasOwnProperty\<close>, and a state of that key.
\<close>

definition ex_reset :: reducer where
  "ex_reset state action m =
     (case ex_type action of
        Inl e \<Rightarrow> (Inl e, m)
      | Inr t \<Rightarrow> if t = Str ''RESET'' \<or> state = Undefined then (Inr Null, m) else (Inr state, m))"

definition ex_own_reducers :: "(string \<times> rentry) list" where
  "ex_own_reducers = [(''hasOwnProperty'', Callable ex_reset)]"

definition ex_own_state :: val where
  "ex_own_state = Obj 7 Plain [(''hasOwnProperty'', Num 0)]"

text \<open>
  The mapping \<^verbatim>\<open>{['__proto__']: ..., b: ...}\<close>, whose first key is an own property
  of it, and a state of the key \<^verbatim>\<open>b\<close>.
\<close>

definition ex_proto_reducers :: "(string \<times> rentry) list" where
  "ex_proto_reducers = [(''__proto__'', Callable ex_ignore), (''b'', Callable ex_fresh_on_inc)]"

definition ex_proto_state :: val where
  "ex_proto_state = Obj 7 Plain [(''b'', Obj 6 Plain [])]"

section \<open>Example store\<close>

text \<open>
  A reducer that throws on the action type \<^verbatim>\<open>BOOM\<close> and otherwise is the first example
  reducer; a store of it; a program in which the function \<open>2\<close> reads the state and
  calls the second \<^verbatim>\<open>unsubscribe\<close> closure, the function \<open>4\<close> subscribes the
  function \<open>5\<close>, and every other function does nothing; and the store after
  \<^verbatim>\<open>subscribe\<close> was called with the function \<open>2\<close>, then with the function \<open>3\<close> and
  then with the function \<open>4\<close>.
\<close>

definition ex_fail_on_boom :: reducer where
  "ex_fail_on_boom state action m =
     (case ex_type action of
        Inl e \<Rightarrow> (Inl e, m)
      | Inr t \<Rightarrow>
          if t = Str ''BOOM'' then (Inl (Thrown (Str ''boom'')), m)
          else ex_fresh_on_inc state action m)"

definition ex_store :: "unit store" where
  "ex_store =
     \<lparr>currentReducer = ex_fail_on_boom, currentState = Obj 5 Plain [],
      currentListeners = 0, nextListeners = 0, isDispatching = False,
      arrays = (\<lambda>a. []), arrayCount = 1, subscriptions = [], observers = [],
      objectCount = 20, invoked = [], delivered = [], outside = ()\<rparr>"

definition ex_program :: program where
  "ex_program =
     \<lparr>functionBody = (\<lambda>f. if f = 2 then [CallGetState, CallUnsubscribe 1]
                           else if f = 4 then [CallSubscribe (Fun 5)]
                           else []),
      environmentOf = ex_environment False\<rparr>"

definition ex_listening :: "unit store" where
  "ex_listening =
     snd (subscribe (Fun 4) (snd (subscribe (Fun 3) (snd (subscribe (Fun 2) ex_store)))))"

text \<open>
  The store after the listeners of that registry were called in the notification phase of
  a dispatch whose reducer returned the object \<open>20\<close>; the example store after one
  \<^verbatim>\<open>subscribe\<close>, and after the \<^verbatim>\<open>unsubscribe\<close> that call returned.
\<close>

definition ex_notified :: "unit store" where
  "ex_notified =
     snd (callAll ex_program [Fun 2, Fun 3, Fun 4] (afterReducer ex_listening (Obj 20 Plain []) 21))"

definition ex_subscribed :: "unit store" where
  "ex_subscribed = snd (subscribe (Fun 2) ex_store)"

definition ex_unsubscribed :: "unit store" where
  "ex_unsubscribed = snd (unsubscribe 0 ex_subscribed)"

section \<open>Example middleware\<close>

text \<open>
  \<^verbatim>\<open>api => next => action => { log.push(tag); return next(action) }\<close> over a log
  shared outside the store, \<^verbatim>\<open>api => next => action => null\<close>, which forwards
  nothing, and the store that \<^verbatim>\<open>createStore(reducer, applyMiddleware(mid1, mid2))\<close>
  returns for the loggers of \<^verbatim>\<open>"a"\<close> and \<^verbatim>\<open>"b"\<close> and the example reducer, with an
  empty log: the function \<open>9\<close> is the enhancer \<^verbatim>\<open>applyMiddleware(mid1, mid2)\<close>,
  which calls the constructor it is handed with the two arguments it is called with.
\<close>

definition logger :: "string \<Rightarrow> string list middleware" where
  "logger tag api next action st = next action (st\<lparr>outside := outside st @ [tag]\<rparr>)"

definition swallow :: "'x middleware" where
  "swallow api next action st = Some (Inr Null, st)"

definition ex_enhancers :: "nat \<Rightarrow> string list enhancer" where
  "ex_enhancers f createStore' reducer preloadedState n x =
     applyMiddleware 1 [logger ''a'', logger ''b'']
       (\<lambda>(reducer', preloadedState'). createStore' reducer' preloadedState' Undefined n x)
       (reducer, preloadedState)"

definition ex_enhanced :: "(error + string list storeObject \<times> string list store) option" where
  "ex_enhanced =
     createStore 2 ex_enhancers ex_program (Callable ex_fail_on_boom) (Fun 9) Undefined 10 []"

section \<open>Properties of \<open>compose\<close>\<close>

lemma foldl_compose_apply:
  "foldl (\<lambda>a b. (\<lambda>args. a (b args))) f fs x = f (foldr (\<lambda>g acc. g acc) fs x)"
  by (induction fs arbitrary: f) simp_all

lemma compose_foldr: "compose fs x = foldr (\<lambda>g acc. g acc) fs x"
proof (cases fs)
  case Nil
  then show ?thesis by simp
next
  case (Cons f gs)
  then show ?thesis
    by (cases gs) (simp_all add: foldl_compose_apply)
qed

text \<open>
  C5: \<open>compose()\<close> is the identity function, \<open>compose(f)\<close> is \<open>f\<close> itself, and
  \<open>compose(f, g, h)(x)\<close> is \<open>f(g(h(x)))\<close>: the rightmost function receives the original
  argument and each result feeds the function to its left.
\<close>

theorem compose_spec:
  "compose [] x = x \<and> compose [f] = f \<and> compose [f, g, h] x = f (g (h x))"
  by simp

section \<open>Properties of \<open>combineReducers\<close>\<close>

lemma typeof_undefined [simp]: "(typeof v = TUndefined) = (v = Undefined)"
  by (cases v) simp_all

lemma get_prop_Obj: "get_prop env (Obj i kd ps) k = Inr (previousStateForKey env (Obj i kd ps) k)"
  by (simp add: previousStateForKey_def get_prop_def split: option.splits)

lemma get_prop_own: "own_prop v k = Some x \<Longrightarrow> get_prop env v k = Inr x"
  by (cases v) (simp_all add: get_prop_def)

lemma keeps_mono: "keeps n r p a \<Longrightarrow> n \<le> m \<Longrightarrow> keeps m r p a"
  unfolding keeps_def by (meson le_trans)

lemma changes_mono: "changes n r p a \<Longrightarrow> n \<le> m \<Longrightarrow> changes m r p a"
  unfolding changes_def by (meson le_trans)

lemma keeps_not_changes: "keeps n r p a \<Longrightarrow> \<not> changes n r p a"
proof
  assume k: "keeps n r p a" and c: "changes n r p a"
  from k obtain v m' where "r p a n = (Inr v, m')" "strict_eq v p"
    unfolding keeps_def by blast
  moreover from c obtain w k' where "r p a n = (Inr w, k')" "\<not> strict_eq w p"
    unfolding changes_def by blast
  ultimately show False by simp
qed

lemma keeps_or_changes_run:
  assumes "keeps n r p a \<or> changes n r p a"
  obtains v m' where "r p a n = (Inr v, m')" and "n \<le> m'" and "v \<noteq> Undefined"
    and "strict_eq v p = keeps n r p a" and "(\<not> strict_eq v p) = changes n r p a"
proof (cases "keeps n r p a")
  case True
  then obtain v m' where "r p a n = (Inr v, m')" "n \<le> m'" "v \<noteq> Undefined" "strict_eq v p"
    unfolding keeps_def by blast
  with True keeps_not_changes [OF True] that show ?thesis by blast
next
  case False
  with assms have c: "changes n r p a" by blast
  then obtain v m' where "r p a n = (Inr v, m')" "n \<le> m'" "v \<noteq> Undefined" "\<not> strict_eq v p"
    unfolding changes_def by blast
  with False c that show ?thesis by blast
qed

lemma assignNextState_update: "k \<noteq> ''__proto__'' \<Longrightarrow> assignNextState k v ns = AList.update k v ns"
  by (simp add: assignNextState_def)

lemma combinationLoop_run:
  assumes "\<forall>(k, r) \<in> set rs. keeps n r (previousStateForKey env (Obj i kd ps) k) action
             \<or> changes n r (previousStateForKey env (Obj i kd ps) k) action"
      and "distinct (map fst rs)"
      and "''__proto__'' \<notin> set (map fst rs)"
  shows "\<exists>ns' n'. combinationLoop env rs (Obj i kd ps) action hc ns n =
            (Inr (hc \<or> (\<exists>(k, r) \<in> set rs. changes n r (previousStateForKey env (Obj i kd ps) k) action), ns'), n')
          \<and> map fst ns' = map fst ns @ filter (\<lambda>k. k \<notin> set (map fst ns)) (map fst rs)
          \<and> (\<forall>k. k \<notin> set (map fst rs) \<longrightarrow> map_of ns' k = map_of ns k)
          \<and> (\<forall>(k, r) \<in> set rs. \<exists>v. map_of ns' k = Some v \<and>
                (strict_eq v (previousStateForKey env (Obj i kd ps) k)
                   = keeps n r (previousStateForKey env (Obj i kd ps) k) action))"
  using assms
proof (induction rs arbitrary: hc ns n)
  case Nil
  then show ?case by simp
next
  case (Cons kr rs)
  obtain k r where kr: "kr = (k, r)" by (cases kr)
  let ?st = "Obj i kd ps"
  let ?p = "previousStateForKey env ?st k"
  from Cons.prems kr have kc: "keeps n r ?p action \<or> changes n r ?p action" by simp
  obtain v m' where run: "r ?p action n = (Inr v, m')" and le: "n \<le> m'" and v: "v \<noteq> Undefined"
    and ke: "strict_eq v ?p = keeps n r ?p action" and ch: "(\<not> strict_eq v ?p) = changes n r ?p action"
    using keeps_or_changes_run [OF kc] by blast
  from Cons.prems kr have k_notin: "k \<notin> set (map fst rs)" and dist: "distinct (map fst rs)"
    and kp: "k \<noteq> ''__proto__''" and np: "''__proto__'' \<notin> set (map fst rs)"
    by auto
  from Cons.prems have rest0: "\<forall>(k, r) \<in> set rs. keeps n r (previousStateForKey env ?st k) action
             \<or> changes n r (previousStateForKey env ?st k) action" by simp
  have same_k: "keeps m' r' p a = keeps n r' p a" and same_c: "changes m' r' p a = changes n r' p a"
    if "keeps n r' p a \<or> changes n r' p a" for r' p a
    using that le keeps_mono [of n r' p a m'] changes_mono [of n r' p a m']
      keeps_not_changes [of m' r' p a] keeps_not_changes [of n r' p a]
    by blast+
  from rest0 same_k same_c
  have rest: "\<forall>(k, r) \<in> set rs. keeps m' r (previousStateForKey env ?st k) action
             \<or> changes m' r (previousStateForKey env ?st k) action"
    by fastforce
  let ?hc = "hc \<or> \<not> strict_eq v ?p"
  let ?ns = "AList.update k v ns"
  from Cons.IH [OF rest dist np, of ?hc ?ns] obtain ns' n' where
    loop: "combinationLoop env rs ?st action ?hc ?ns m' =
            (Inr (?hc \<or> (\<exists>(k, r) \<in> set rs. changes m' r (previousStateForKey env ?st k) action), ns'), n')"
    and keys: "map fst ns' = map fst ?ns @ filter (\<lambda>k. k \<notin> set (map fst ?ns)) (map fst rs)"
    and other: "\<forall>k. k \<notin> set (map fst rs) \<longrightarrow> map_of ns' k = map_of ?ns k"
    and mine: "\<forall>(k, r) \<in> set rs. \<exists>v. map_of ns' k = Some v \<and>
                (strict_eq v (previousStateForKey env ?st k) = keeps m' r (previousStateForKey env ?st k) action)"
    by blast
  have ex_eq: "(\<exists>(k, r) \<in> set rs. changes m' r (previousStateForKey env ?st k) action)
      = (\<exists>(k, r) \<in> set rs. changes n r (previousStateForKey env ?st k) action)"
    using rest0 same_c by fastforce
  have step: "combinationLoop env (kr # rs) ?st action hc ns n = combinationLoop env rs ?st action ?hc ?ns m'"
    using run v by (simp add: kr get_prop_Obj assignNextState_update [OF kp])
  have c1: "combinationLoop env (kr # rs) ?st action hc ns n =
      (Inr (hc \<or> (\<exists>(k, r) \<in> set (kr # rs). changes n r (previousStateForKey env ?st k) action), ns'), n')"
    using step loop ch ex_eq by (auto simp: kr)
  have c2: "map fst ns' = map fst ns @ filter (\<lambda>k. k \<notin> set (map fst ns)) (map fst (kr # rs))"
    using keys k_notin by (auto simp: kr update_keys intro!: filter_cong)
  have c3: "\<forall>x. x \<notin> set (map fst (kr # rs)) \<longrightarrow> map_of ns' x = map_of ns x"
    using other by (auto simp: kr update_conv')
  have mine': "\<forall>(k, r) \<in> set rs. \<exists>v. map_of ns' k = Some v \<and>
                (strict_eq v (previousStateForKey env ?st k) = keeps n r (previousStateForKey env ?st k) action)"
    using mine rest0 same_k by fastforce
  have "map_of ns' k = Some v" using other k_notin by (simp add: update_conv')
  with mine' ke have c4: "\<forall>(k, r) \<in> set (kr # rs). \<exists>v. map_of ns' k = Some v \<and>
                (strict_eq v (previousStateForKey env ?st k) = keeps n r (previousStateForKey env ?st k) action)"
    by (simp add: kr)
  from c1 c2 c3 c4 show ?case by blast
qed

lemma callableEntries_keys: "map fst (callableEntries es) = map fst (filter (\<lambda>(k, e). isCallable e) es)"
  by (induction es rule: callableEntries.induct) simp_all

lemma callableEntries_append: "callableEntries (xs @ ys) = callableEntries xs @ callableEntries ys"
  by (induction xs rule: callableEntries.induct) simp_all

lemma callableEntries_mem: "(k, r) \<in> set (callableEntries es) \<Longrightarrow> (k, Callable r) \<in> set es"
  by (induction es rule: callableEntries.induct) auto

lemma callableEntries_distinct: "distinct (map fst es) \<Longrightarrow> distinct (map fst (callableEntries es))"
  by (simp add: callableEntries_keys distinct_map_filter)

lemma map_of_fresh: "k \<notin> fst ` set al \<Longrightarrow> map_of al k = None"
  by (simp add: map_of_eq_None_iff)

text \<open>
  What \<open>collectFinalReducers\<close> leaves in \<^verbatim>\<open>finalReducers\<close> when it returns: the entries
  of the mapping that are functions, in their order, but for the one under the key
  \<^verbatim>\<open>__proto__\<close>.
\<close>

lemma collectFinalReducers_entries:
  assumes "\<forall>(k, e) \<in> set es. map_of reducers k = Some e"
      and "distinct (map fst es)"
      and "fst ` set es \<inter> fst ` set fr = {}"
      and "collectFinalReducers env reducers (map fst es) (fr, b) = Inr (fr', b')"
  shows "fr' = fr @ filter (\<lambda>kr. fst kr \<noteq> ''__proto__'') (callableEntries es)"
  using assms
proof (induction es arbitrary: fr b)
  case Nil
  then show ?case by simp
next
  case (Cons ke es)
  obtain k e where ke: "ke = (k, e)" by (cases ke)
  from Cons.prems ke have look: "map_of reducers k = Some e" by simp
  from Cons.prems ke have fresh: "k \<notin> fst ` set fr" by auto
  from Cons.prems ke have k_notin: "k \<notin> fst ` set es" by auto
  from Cons.prems have rest: "\<forall>(k, e) \<in> set es. map_of reducers k = Some e"
    and dist: "distinct (map fst es)" and disj: "fst ` set es \<inter> fst ` set fr = {}"
    by auto
  note none = map_of_fresh [OF fresh]
  show ?case
  proof (cases e)
    case (NotCallable v)
    with Cons.prems(4) ke look
    have "collectFinalReducers env reducers (map fst es) (fr, b) = Inr (fr', b')" by simp
    from Cons.IH [OF rest dist disj this] show ?thesis by (simp add: ke NotCallable)
  next
    case (Callable r)
    show ?thesis
    proof (cases "k = ''__proto__''")
      case True
      with Cons.prems(4) ke look Callable none
      have "collectFinalReducers env reducers (map fst es) (fr, True) = Inr (fr', b')"
        by (simp add: assignFinalReducer_def)
      from Cons.IH [OF rest dist disj this] True show ?thesis by (simp add: ke Callable)
    next
      case False
      with Cons.prems(4) ke look Callable none
      have c: "collectFinalReducers env reducers (map fst es) (fr @ [(k, r)], b) = Inr (fr', b')"
        by (simp add: assignFinalReducer_def split: if_splits)
      have "fst ` set es \<inter> fst ` set (fr @ [(k, r)]) = {}" using disj k_notin by auto
      from Cons.IH [OF rest dist this c] False show ?thesis by (simp add: ke Callable)
    qed
  qed
qed

text \<open>
  When no function of the mapping has the key \<^verbatim>\<open>__proto__\<close>, the prototype of
  \<^verbatim>\<open>finalReducers\<close> is not replaced and no assignment throws.
\<close>

lemma collectFinalReducers_returns:
  assumes "\<forall>(k, e) \<in> set es. map_of reducers k = Some e"
      and "distinct (map fst es)"
      and "fst ` set es \<inter> fst ` set fr = {}"
      and "''__proto__'' \<notin> fst ` set (callableEntries es)"
  shows "collectFinalReducers env reducers (map fst es) (fr, False) = Inr (fr @ callableEntries es, False)"
  using assms
proof (induction es arbitrary: fr)
  case Nil
  then show ?case by simp
next
  case (Cons ke es)
  obtain k e where ke: "ke = (k, e)" by (cases ke)
  from Cons.prems ke have look: "map_of reducers k = Some e" by simp
  from Cons.prems ke have fresh: "k \<notin> fst ` set fr" by auto
  from Cons.prems ke have k_notin: "k \<notin> fst ` set es" by auto
  from Cons.prems have rest: "\<forall>(k, e) \<in> set es. map_of reducers k = Some e"
    and dist: "distinct (map fst es)" and disj: "fst ` set es \<inter> fst ` set fr = {}"
    by auto
  note none = map_of_fresh [OF fresh]
  show ?case
  proof (cases e)
    case (NotCallable v)
    from Cons.prems(4) ke NotCallable have np: "''__proto__'' \<notin> fst ` set (callableEntries es)" by simp
    from Cons.IH [OF rest dist disj np] show ?thesis by (simp add: ke look NotCallable)
  next
    case (Callable r)
    from Cons.prems(4) ke Callable have kp: "k \<noteq> ''__proto__''"
      and np: "''__proto__'' \<notin> fst ` set (callableEntries es)" by auto
    have "fst ` set es \<inter> fst ` set (fr @ [(k, r)]) = {}" using disj k_notin by auto
    from Cons.IH [OF rest dist this np] kp none show ?thesis
      by (simp add: ke look Callable assignFinalReducer_def)
  qed
qed

lemma map_of_entries: "distinct (map fst es) \<Longrightarrow> \<forall>(k, e) \<in> set es. map_of es k = Some e"
  by auto

lemma combineReducers_finalReducers:
  assumes "combineReducers env reducers rnd n0 = (Inr c, n1)" and "distinct (map fst reducers)"
  shows "finalReducers c = filter (\<lambda>kr. fst kr \<noteq> ''__proto__'') (callableEntries reducers)"
proof -
  from assms(1) obtain fr b where
    col: "collectFinalReducers env reducers (map fst reducers) ([], False) = Inr (fr, b)"
    and fin: "finalReducers c = fr"
    by (auto simp: combineReducers_def Let_def split: prod.splits sum.splits)
  have "fr = [] @ filter (\<lambda>kr. fst kr \<noteq> ''__proto__'') (callableEntries reducers)"
    using map_of_entries [OF assms(2)] assms(2) col
    by (intro collectFinalReducers_entries [where fr = "[]"]) auto
  with fin show ?thesis by simp
qed

lemma combineReducers_distinct:
  assumes "combineReducers env reducers rnd n0 = (Inr c, n1)" and "distinct (map fst reducers)"
  shows "distinct (map fst (finalReducers c))" and "''__proto__'' \<notin> set (map fst (finalReducers c))"
proof -
  note fr = combineReducers_finalReducers [OF assms]
  have "distinct (map fst (callableEntries reducers))"
    by (rule callableEntries_distinct [OF assms(2)])
  then show "distinct (map fst (finalReducers c))"
    by (simp add: fr distinct_map_filter)
  show "''__proto__'' \<notin> set (map fst (finalReducers c))"
    by (auto simp: fr)
qed

lemma combineReducers_returns:
  assumes "distinct (map fst reducers)"
      and "''__proto__'' \<notin> fst ` set (callableEntries reducers)"
  shows "\<exists>c n1. combineReducers env reducers rnd n0 = (Inr c, n1)
           \<and> finalReducers c = callableEntries reducers
           \<and> shapeAssertionError c =
               (case fst (assertReducerShape (callableEntries reducers) rnd n0) of
                  Inl e \<Rightarrow> Some e
                | Inr u \<Rightarrow> None)"
proof -
  have "collectFinalReducers env reducers (map fst reducers) ([], False)
          = Inr ([] @ callableEntries reducers, False)"
    using map_of_entries [OF assms(1)] assms
    by (intro collectFinalReducers_returns) auto
  then show ?thesis
    by (auto simp: combineReducers_def Let_def split: prod.splits sum.splits)
qed

lemma quiet_run:
  assumes "quiet env c state action"
  shows "(if production env then (Inr (), n)
          else getUnexpectedStateShapeWarningMessage env state (finalReducers c) action n) = (Inr (), n)"
  using assms by (auto simp: quiet_def)

lemma quiet_plain:
  assumes "production env \<or> (isPlainObject state \<and> map_of (finalReducers c) ''hasOwnProperty'' = None)"
  shows "quiet env c state action"
  using assms by (auto simp: quiet_def getUnexpectedStateShapeWarningMessage_def)

lemma combination_run:
  assumes sh: "shapeAssertionError c = None"
      and dist: "distinct (map fst (finalReducers c))"
      and np: "''__proto__'' \<notin> set (map fst (finalReducers c))"
      and q: "quiet env c (Obj i kd ps) action"
      and all: "\<forall>(k, r) \<in> set (finalReducers c).
              keeps n r (previousStateForKey env (Obj i kd ps) k) action
            \<or> changes n r (previousStateForKey env (Obj i kd ps) k) action"
  shows "\<exists>ns n'. combination env c (Obj i kd ps) action n =
            (Inr (if (\<exists>(k, r) \<in> set (finalReducers c).
                        changes n r (previousStateForKey env (Obj i kd ps) k) action)
                  then Obj n Plain ns else Obj i kd ps), n')
          \<and> map fst ns = map fst (finalReducers c)
          \<and> (\<forall>(k, r) \<in> set (finalReducers c). \<exists>v. map_of ns k = Some v \<and>
                (strict_eq v (previousStateForKey env (Obj i kd ps) k)
                   = keeps n r (previousStateForKey env (Obj i kd ps) k) action))"
proof -
  let ?st = "Obj i kd ps"
  have same_k: "keeps (Suc n) r' p a = keeps n r' p a" and same_c: "changes (Suc n) r' p a = changes n r' p a"
    if "keeps n r' p a \<or> changes n r' p a" for r' p a
    using that keeps_mono [of n r' p a "Suc n"] changes_mono [of n r' p a "Suc n"]
      keeps_not_changes [of "Suc n" r' p a] keeps_not_changes [of n r' p a]
    by auto
  from all same_k same_c
  have all': "\<forall>(k, r) \<in> set (finalReducers c).
              keeps (Suc n) r (previousStateForKey env ?st k) action
            \<or> changes (Suc n) r (previousStateForKey env ?st k) action"
    by fastforce
  from combinationLoop_run [OF all' dist np, of False "[]"]
  have "\<exists>ns n'. combinationLoop env (finalReducers c) ?st action False [] (Suc n) =
            (Inr ((\<exists>(k, r) \<in> set (finalReducers c).
                     changes (Suc n) r (previousStateForKey env ?st k) action), ns), n')
      \<and> map fst ns = map fst (finalReducers c)
      \<and> (\<forall>(k, r) \<in> set (finalReducers c). \<exists>v. map_of ns k = Some v \<and>
                (strict_eq v (previousStateForKey env ?st k)
                   = keeps (Suc n) r (previousStateForKey env ?st k) action))"
    by simp blast
  then obtain ns n' where
    loop: "combinationLoop env (finalReducers c) ?st action False [] (Suc n) =
            (Inr ((\<exists>(k, r) \<in> set (finalReducers c).
                     changes (Suc n) r (previousStateForKey env ?st k) action), ns), n')"
    and keys: "map fst ns = map fst (finalReducers c)"
    and mine: "\<forall>(k, r) \<in> set (finalReducers c). \<exists>v. map_of ns k = Some v \<and>
                (strict_eq v (previousStateForKey env ?st k)
                   = keeps (Suc n) r (previousStateForKey env ?st k) action)"
    by blast
  have ex_eq: "(\<exists>(k, r) \<in> set (finalReducers c). changes (Suc n) r (previousStateForKey env ?st k) action)
      = (\<exists>(k, r) \<in> set (finalReducers c). changes n r (previousStateForKey env ?st k) action)"
    using all same_c by fastforce
  have r1: "combination env c ?st action n =
            (Inr (if (\<exists>(k, r) \<in> set (finalReducers c).
                        changes n r (previousStateForKey env ?st k) action)
                  then Obj n Plain ns else ?st), n')"
    using loop ex_eq by (simp add: combination_def sh quiet_run [OF q])
  have r2: "map fst ns = map fst (finalReducers c)" using keys by simp
  have r3: "\<forall>(k, r) \<in> set (finalReducers c). \<exists>v. map_of ns k = Some v \<and>
                (strict_eq v (previousStateForKey env ?st k)
                   = keeps n r (previousStateForKey env ?st k) action)"
    using mine all same_k by fastforce
  from r1 r2 r3 show ?thesis by blast
qed

text \<open>
  Reference stability where the composed reducer is quiet: if every final reducer
  returns a value identical to the previous state of its key, the composed reducer
  returns the state object it was given, by identity; if at least one key's result
  differs by identity, it returns a newly constructed object (its identity is the
  allocation counter of the call, and it is not identical to the previous state) in
  which every key that did not change holds a value identical to its previous one, and
  every key that changed does not. The previous state of a key is what \<^verbatim>\<open>state[key]\<close>
  reads, inherited properties included.
\<close>

lemma combination_stable_when_quiet:
  assumes "combineReducers env reducers rnd n0 = (Inr c, n1)"
      and "distinct (map fst reducers)"
      and "shapeAssertionError c = None"
      and "quiet env c (Obj i kd ps) action"
      and "i < n"
  shows "((\<forall>(k, r) \<in> set (finalReducers c). keeps n r (previousStateForKey env (Obj i kd ps) k) action)
            \<longrightarrow> (\<exists>n'. combination env c (Obj i kd ps) action n = (Inr (Obj i kd ps), n')))
       \<and> ((\<forall>(k, r) \<in> set (finalReducers c).
               keeps n r (previousStateForKey env (Obj i kd ps) k) action
             \<or> changes n r (previousStateForKey env (Obj i kd ps) k) action)
          \<and> (\<exists>(k, r) \<in> set (finalReducers c).
               changes n r (previousStateForKey env (Obj i kd ps) k) action)
            \<longrightarrow> (\<exists>ns n'. combination env c (Obj i kd ps) action n = (Inr (Obj n Plain ns), n')
                  \<and> \<not> strict_eq (Obj n Plain ns) (Obj i kd ps)
                  \<and> map fst ns = map fst (finalReducers c)
                  \<and> (\<forall>(k, r) \<in> set (finalReducers c).
                        \<exists>v. own_prop (Obj n Plain ns) k = Some v
                          \<and> (keeps n r (previousStateForKey env (Obj i kd ps) k) action
                                \<longrightarrow> strict_eq v (previousStateForKey env (Obj i kd ps) k))
                          \<and> (changes n r (previousStateForKey env (Obj i kd ps) k) action
                                \<longrightarrow> \<not> strict_eq v (previousStateForKey env (Obj i kd ps) k)))))"
proof (intro conjI impI)
  let ?st = "Obj i kd ps"
  note dist = combineReducers_distinct [OF assms(1,2)]
  {
    assume k: "\<forall>(k, r) \<in> set (finalReducers c). keeps n r (previousStateForKey env ?st k) action"
    then have all: "\<forall>(k, r) \<in> set (finalReducers c).
              keeps n r (previousStateForKey env ?st k) action
            \<or> changes n r (previousStateForKey env ?st k) action" by fastforce
    from k have no: "\<not> (\<exists>(k, r) \<in> set (finalReducers c).
               changes n r (previousStateForKey env ?st k) action)"
      using keeps_not_changes by fastforce
    from combination_run [OF assms(3) dist assms(4) all] no
    show "\<exists>n'. combination env c ?st action n = (Inr ?st, n')" by auto
  }
  {
    assume h: "(\<forall>(k, r) \<in> set (finalReducers c).
               keeps n r (previousStateForKey env ?st k) action
             \<or> changes n r (previousStateForKey env ?st k) action)
          \<and> (\<exists>(k, r) \<in> set (finalReducers c).
               changes n r (previousStateForKey env ?st k) action)"
    then have all: "\<forall>(k, r) \<in> set (finalReducers c).
               keeps n r (previousStateForKey env ?st k) action
             \<or> changes n r (previousStateForKey env ?st k) action"
      and some: "\<exists>(k, r) \<in> set (finalReducers c).
               changes n r (previousStateForKey env ?st k) action" by blast+
    from combination_run [OF assms(3) dist assms(4) all] some obtain ns n' where
      run: "combination env c ?st action n = (Inr (Obj n Plain ns), n')"
      and keys: "map fst ns = map fst (finalReducers c)"
      and mine: "\<forall>(k, r) \<in> set (finalReducers c). \<exists>v. map_of ns k = Some v \<and>
                (strict_eq v (previousStateForKey env ?st k)
                   = keeps n r (previousStateForKey env ?st k) action)"
      by auto
    have neq: "\<not> strict_eq (Obj n Plain ns) ?st" using assms(5) by simp
    have props: "\<forall>(k, r) \<in> set (finalReducers c).
                        \<exists>v. own_prop (Obj n Plain ns) k = Some v
                          \<and> (keeps n r (previousStateForKey env ?st k) action
                                \<longrightarrow> strict_eq v (previousStateForKey env ?st k))
                          \<and> (changes n r (previousStateForKey env ?st k) action
                                \<longrightarrow> \<not> strict_eq v (previousStateForKey env ?st k))"
      using mine keeps_not_changes by fastforce
    from run neq keys props
    show "\<exists>ns n'. combination env c ?st action n = (Inr (Obj n Plain ns), n')
                  \<and> \<not> strict_eq (Obj n Plain ns) ?st
                  \<and> map fst ns = map fst (finalReducers c)
                  \<and> (\<forall>(k, r) \<in> set (finalReducers c).
                        \<exists>v. own_prop (Obj n Plain ns) k = Some v
                          \<and> (keeps n r (previousStateForKey env ?st k) action
                                \<longrightarrow> strict_eq v (previousStateForKey env ?st k))
                          \<and> (changes n r (previousStateForKey env ?st k) action
                                \<longrightarrow> \<not> strict_eq v (previousStateForKey env ?st k)))"
      by blast
  }
qed

subsection \<open>The composed reducer on the examples\<close>

lemma ex_combined:
  "combineReducers env ex_reducers (\<lambda>k. ''x'') 0 =
     (Inr \<lparr>finalReducers = [(''a'', ex_fresh_on_inc), (''b'', ex_ignore)], shapeAssertionError = None\<rparr>, 6)"
  by (simp add: combineReducers_def ex_reducers_def assignFinalReducer_def new_object_def
      ex_fresh_on_inc_def ex_ignore_def ex_type_def ActionTypes_INIT_def PROBE_UNKNOWN_ACTION_def)

text \<open>
  A reducer under a key that the state does not own but inherits is handed the inherited
  value: the composed reducer of \<^verbatim>\<open>{toString: (state = 0) => state}\<close> returns the
  state \<^verbatim>\<open>{}\<close> it is given.
\<close>

lemma ex_inherited_previous_state:
  "\<exists>c n1. combineReducers (ex_environment False) [(''toString'', Callable ex_zero)] (\<lambda>k. ''x'') 0 = (Inr c, n1)
     \<and> previousStateForKey (ex_environment False) (Obj 7 Plain []) ''toString'' = Fun 1005
     \<and> combination (ex_environment False) c (Obj 7 Plain []) (ex_action ''NOOP'') 10
         = (Inr (Obj 7 Plain []), 11)"
  by (simp add: combineReducers_def assignFinalReducer_def new_object_def ex_zero_def
      combination_def getUnexpectedStateShapeWarningMessage_def ex_environment_def
      previousStateForKey_def get_prop_def ex_objectPrototype_def)

text \<open>
  C2: outside production the composed reducer of \<^verbatim>\<open>{hasOwnProperty: r}\<close> throws the
  TypeError of the language on the state \<^verbatim>\<open>{hasOwnProperty: 0}\<close> and an action for
  which \<open>r\<close> returns the previous state of its key, where the claim has it return the
  state object it was given: the check of the state's shape calls
  \<^verbatim>\<open>reducers.hasOwnProperty(key)\<close>, which is \<open>r\<close> called with the key as state and
  without an action. In production the same call returns the state object, by identity.
\<close>

theorem combination_diagnostic_throws:
  "ex_reset (Num 0) (ex_action ''NOOP'') 21 = (Inr (Num 0), 21)
   \<and> (\<exists>c n1. combineReducers (ex_environment False) ex_own_reducers (\<lambda>k. ''r'') 0 = (Inr c, n1)
         \<and> shapeAssertionError c = None
         \<and> map fst (finalReducers c) = [''hasOwnProperty'']
         \<and> combination (ex_environment False) c ex_own_state (ex_action ''NOOP'') 20
             = (Inl EngineTypeError, 20))
   \<and> (\<exists>c n1. combineReducers (ex_environment True) ex_own_reducers (\<lambda>k. ''r'') 0 = (Inr c, n1)
         \<and> combination (ex_environment True) c ex_own_state (ex_action ''NOOP'') 20
             = (Inr ex_own_state, 21))"
  by (simp add: combineReducers_def ex_own_reducers_def assignFinalReducer_def new_object_def
      ex_reset_def ex_type_def ex_action_def ex_own_state_def combination_def
      getUnexpectedStateShapeWarningMessage_def ex_environment_def get_prop_def
      ActionTypes_INIT_def PROBE_UNKNOWN_ACTION_def)

text \<open>
  C10: of the mapping \<^verbatim>\<open>{['__proto__']: ra, b: rb}\<close> both entries are functions, but
  the final reducers have the key \<^verbatim>\<open>b\<close> only, and when the result of \<^verbatim>\<open>b\<close> changes
  the state returned is a new object with the key \<^verbatim>\<open>b\<close> only, in production and
  outside it: the assignment \<^verbatim>\<open>finalReducers['__proto__'] = ra\<close> replaces the
  prototype of \<^verbatim>\<open>finalReducers\<close> and adds no property.
\<close>

theorem combination_drops_proto_reducer:
  "map fst (filter (\<lambda>(k, e). isCallable e) ex_proto_reducers) = [''__proto__'', ''b'']
   \<and> (\<forall>p. \<exists>c n1 ns. combineReducers (ex_environment p) ex_proto_reducers (\<lambda>k. ''r'') 0 = (Inr c, n1)
         \<and> shapeAssertionError c = None
         \<and> map fst (finalReducers c) = [''b'']
         \<and> combination (ex_environment p) c ex_proto_state (ex_action ''INC'') 20
             = (Inr (Obj 20 Plain ns), 22)
         \<and> map fst ns = [''b''])"
  by (simp add: combineReducers_def ex_proto_reducers_def assignFinalReducer_def new_object_def
      ex_fresh_on_inc_def ex_ignore_def ex_type_def ex_action_def ex_proto_state_def combination_def
      getUnexpectedStateShapeWarningMessage_def ex_environment_def get_prop_def
      assignNextState_def ActionTypes_INIT_def PROBE_UNKNOWN_ACTION_def)

subsection \<open>The cached error of the probes\<close>

lemma assertReducerShape_fails:
  assumes "\<forall>(k, r') \<in> set fpre. passesProbes r' (rnd k)"
      and "failsProbe r (rnd key)"
  shows "\<exists>n'. assertReducerShape (fpre @ (key, r) # fpost) rnd n =
           (Inl (ReducerReturnedUndefined (failedProbe r) key), n')"
  using assms(1)
proof (induction fpre arbitrary: n)
  case Nil
  show ?case
  proof (cases "returnsUndefinedFor r ActionTypes_INIT")
    case True
    then obtain m' where "r Undefined (Obj n Plain [(''type'', Str ActionTypes_INIT)]) (Suc n) = (Inr Undefined, m')"
      unfolding returnsUndefinedFor_def by blast
    with True show ?thesis by (simp add: new_object_def failedProbe_def)
  next
    case False
    with assms(2) have d: "returnsDefinedFor r ActionTypes_INIT"
      and u: "returnsUndefinedFor r (PROBE_UNKNOWN_ACTION @ rnd key)"
      unfolding failsProbe_def by blast+
    from d obtain v m1 where i: "r Undefined (Obj n Plain [(''type'', Str ActionTypes_INIT)]) (Suc n) = (Inr v, m1)"
      and v: "v \<noteq> Undefined"
      unfolding returnsDefinedFor_def by blast
    from u obtain m2 where "r Undefined (Obj m1 Plain [(''type'', Str (PROBE_UNKNOWN_ACTION @ rnd key))]) (Suc m1)
        = (Inr Undefined, m2)"
      unfolding returnsUndefinedFor_def by blast
    with i v False show ?thesis by (simp add: new_object_def failedProbe_def)
  qed
next
  case (Cons kr fpre)
  obtain k r' where kr: "kr = (k, r')" by (cases kr)
  from Cons.prems kr have p: "passesProbes r' (rnd k)"
    and rest: "\<forall>(k, r') \<in> set fpre. passesProbes r' (rnd k)" by simp_all
  from p obtain v m1 where i: "r' Undefined (Obj n Plain [(''type'', Str ActionTypes_INIT)]) (Suc n) = (Inr v, m1)"
    and v: "v \<noteq> Undefined"
    unfolding passesProbes_def returnsDefinedFor_def by blast
  from p obtain w m2 where j: "r' Undefined (Obj m1 Plain [(''type'', Str (PROBE_UNKNOWN_ACTION @ rnd k))]) (Suc m1)
        = (Inr w, m2)" and w: "w \<noteq> Undefined"
    unfolding passesProbes_def returnsDefinedFor_def by blast
  from Cons.IH [OF rest, of m2] i v j w show ?case
    by (simp add: kr new_object_def)
qed

text \<open>
  Among reducers whose probes return, the last of which fails a probe, there is a first
  that fails a probe.
\<close>

lemma first_failing:
  assumes "\<forall>(k, e) \<in> set pre. \<forall>r'. e = Callable r' \<longrightarrow> probesReturn r' (rnd k)"
      and "failsProbe r (rnd key)"
  shows "\<exists>pre' k r' post'. pre @ [(key, Callable r)] = pre' @ (k, Callable r') # post'
           \<and> (\<forall>(k, e) \<in> set pre'. \<forall>r'. e = Callable r' \<longrightarrow> passesProbes r' (rnd k))
           \<and> failsProbe r' (rnd k)"
  using assms(1)
proof (induction pre)
  case Nil
  have "[] @ [(key, Callable r)] = [] @ (key, Callable r) # []" by simp
  with assms(2) show ?case by (intro exI [of _ "[]"] exI [of _ key] exI [of _ r]) simp
next
  case (Cons ke pre)
  obtain k0 e0 where ke: "ke = (k0, e0)" by (cases ke)
  from Cons.prems have rest: "\<forall>(k, e) \<in> set pre. \<forall>r'. e = Callable r' \<longrightarrow> probesReturn r' (rnd k)"
    by simp
  from Cons.IH [OF rest] obtain pre' k r' post' where
    sp: "pre @ [(key, Callable r)] = pre' @ (k, Callable r') # post'"
    and ok: "\<forall>(k, e) \<in> set pre'. \<forall>r'. e = Callable r' \<longrightarrow> passesProbes r' (rnd k)"
    and f: "failsProbe r' (rnd k)"
    by blast
  show ?case
  proof (cases "\<exists>r0. e0 = Callable r0 \<and> failsProbe r0 (rnd k0)")
    case True
    then obtain r0 where e0: "e0 = Callable r0" and f0: "failsProbe r0 (rnd k0)" by blast
    have "(ke # pre) @ [(key, Callable r)] = [] @ (k0, Callable r0) # (pre @ [(key, Callable r)])"
      by (simp add: ke e0)
    with f0 show ?thesis
      by (intro exI [of _ "[]"] exI [of _ k0] exI [of _ r0] exI [of _ "pre @ [(key, Callable r)]"]) simp
  next
    case False
    with Cons.prems ke have p0: "\<forall>r0. e0 = Callable r0 \<longrightarrow> passesProbes r0 (rnd k0)"
      by (auto simp: probesReturn_def)
    have "(ke # pre) @ [(key, Callable r)] = (ke # pre') @ (k, Callable r') # post'"
      using sp by simp
    moreover have "\<forall>(k, e) \<in> set (ke # pre'). \<forall>r'. e = Callable r' \<longrightarrow> passesProbes r' (rnd k)"
      using ok p0 ke by simp
    ultimately show ?thesis using f by blast
  qed
qed

text \<open>
  C7, as it holds: when a reducer of the mapping returns \<^verbatim>\<open>undefined\<close> for the
  initialization probe or for the random probe, no reducer probed before it throws while
  it is probed, and no reducer is registered under the key \<^verbatim>\<open>__proto__\<close>, the call of
  \<open>combineReducers\<close> returns a composed reducer (the error is caught and kept), and
  every call of the composed reducer, the first and each later one, whatever its state
  and action, throws the \<open>ReducerReturnedUndefined\<close> error of a reducer of the mapping
  that fails a probe, naming its key and that probe: it is the first such reducer, every
  function of the mapping before it passes its probes.
\<close>

theorem combineReducers_defers_shape_error:
  assumes "distinct (map fst reducers)"
      and "''__proto__'' \<notin> fst ` set (callableEntries reducers)"
      and "reducers = pre @ (key, Callable r) # post"
      and "\<forall>(k, e) \<in> set pre. \<forall>r'. e = Callable r' \<longrightarrow> probesReturn r' (rnd k)"
      and "failsProbe r (rnd key)"
  shows "\<exists>c n1 k r' before after.
             combineReducers env reducers rnd n0 = (Inr c, n1)
           \<and> reducers = before @ (k, Callable r') # after
           \<and> (\<forall>(k0, e) \<in> set before. \<forall>r0. e = Callable r0 \<longrightarrow> passesProbes r0 (rnd k0))
           \<and> failsProbe r' (rnd k)
           \<and> (\<forall>state action m. \<exists>m'. combination env c state action m
                  = (Inl (ReducerReturnedUndefined (failedProbe r') k), m'))"
proof -
  from first_failing [OF assms(4,5)] obtain pre' k r' post' where
    sp: "pre @ [(key, Callable r)] = pre' @ (k, Callable r') # post'"
    and ok: "\<forall>(k, e) \<in> set pre'. \<forall>r'. e = Callable r' \<longrightarrow> passesProbes r' (rnd k)"
    and f: "failsProbe r' (rnd k)"
    by blast
  have red: "reducers = pre' @ (k, Callable r') # (post' @ post)"
    using assms(3) sp by (metis append_Cons append_Nil append_assoc)
  from combineReducers_returns [OF assms(1,2), of env rnd n0] obtain c n1 where
    cr: "combineReducers env reducers rnd n0 = (Inr c, n1)"
    and fr: "finalReducers c = callableEntries reducers"
    and se: "shapeAssertionError c =
               (case fst (assertReducerShape (callableEntries reducers) rnd n0) of
                  Inl e \<Rightarrow> Some e
                | Inr u \<Rightarrow> None)"
    by blast
  have ce: "callableEntries reducers = callableEntries pre' @ (k, r') # callableEntries (post' @ post)"
    by (simp add: red callableEntries_append)
  have pre_ok: "\<forall>(k, r') \<in> set (callableEntries pre'). passesProbes r' (rnd k)"
    using ok callableEntries_mem by fastforce
  from assertReducerShape_fails [OF pre_ok f, of "callableEntries (post' @ post)" n0]
  obtain n' where "assertReducerShape (callableEntries reducers) rnd n0 =
           (Inl (ReducerReturnedUndefined (failedProbe r') k), n')"
    by (auto simp: ce)
  with se have sh: "shapeAssertionError c = Some (ReducerReturnedUndefined (failedProbe r') k)"
    by simp
  have "\<exists>m'. combination env c state action m = (Inl (ReducerReturnedUndefined (failedProbe r') k), m')"
    for state action m
    by (simp add: combination_def sh new_object_def)
  with cr red ok f show ?thesis by blast
qed

lemma ex_ignore_passes: "passesProbes ex_ignore sfx"
  by (simp add: passesProbes_def returnsDefinedFor_def ex_ignore_def)

lemma ex_bad_fails: "returnsUndefinedFor ex_bad ActionTypes_INIT" "failsProbe ex_bad sfx"
  by (simp_all add: failsProbe_def returnsUndefinedFor_def ex_bad_def)

lemma defined_not_undefined: "returnsDefinedFor r t \<Longrightarrow> \<not> returnsUndefinedFor r t"
proof
  assume d: "returnsDefinedFor r t" and u: "returnsUndefinedFor r t"
  from d obtain v m' where "r Undefined (Obj 0 Plain [(''type'', Str t)]) 0 = (Inr v, m')" "v \<noteq> Undefined"
    unfolding returnsDefinedFor_def by blast
  moreover from u obtain m2 where "r Undefined (Obj 0 Plain [(''type'', Str t)]) 0 = (Inr Undefined, m2)"
    unfolding returnsUndefinedFor_def by blast
  ultimately show False by simp
qed

lemma passes_not_fails: "passesProbes r sfx \<Longrightarrow> \<not> failsProbe r sfx"
  using defined_not_undefined by (auto simp: passesProbes_def failsProbe_def)

theorem combineReducers_defers_shape_error_witness:
  "\<exists>c n1. combineReducers (ex_environment False) [(''ok'', Callable ex_ignore), (''x'', Callable ex_bad)]
             (\<lambda>k. ''r'') 0 = (Inr c, n1)
     \<and> (\<exists>m'. combination (ex_environment False) c Undefined (ex_action ''INC'') 20
           = (Inl (ReducerReturnedUndefined DuringInitialization ''x''), m'))
     \<and> (\<exists>m'. combination (ex_environment False) c ex_state (ex_action ''NOOP'') 30
           = (Inl (ReducerReturnedUndefined DuringInitialization ''x''), m'))"
proof -
  let ?rs = "[(''ok'', Callable ex_ignore), (''x'', Callable ex_bad)]"
  have d: "distinct (map fst ?rs)" by simp
  have np: "''__proto__'' \<notin> fst ` set (callableEntries ?rs)" by simp
  have s: "?rs = [(''ok'', Callable ex_ignore)] @ (''x'', Callable ex_bad) # []" by simp
  have p: "\<forall>(k, e) \<in> set [(''ok'', Callable ex_ignore)]. \<forall>r'. e = Callable r' \<longrightarrow> probesReturn r' ((\<lambda>k. ''r'') k)"
    by (simp add: probesReturn_def ex_ignore_passes)
  from combineReducers_defers_shape_error [OF d np s p ex_bad_fails(2), of "ex_environment False" 0]
  obtain c n1 k r' before after where
    cr: "combineReducers (ex_environment False) ?rs (\<lambda>k. ''r'') 0 = (Inr c, n1)"
    and sp: "?rs = before @ (k, Callable r') # after" and f: "failsProbe r' ''r''"
    and thr: "\<forall>state action m. \<exists>m'. combination (ex_environment False) c state action m
                  = (Inl (ReducerReturnedUndefined (failedProbe r') k), m')"
    by blast
  from sp have "(k, Callable r') \<in> set ?rs" by (metis in_set_conv_decomp)
  with f passes_not_fails [OF ex_ignore_passes, of "''r''"] have "k = ''x''" "r' = ex_bad"
    by auto
  with thr ex_bad_fails(1)
  have "\<forall>state action m. \<exists>m'. combination (ex_environment False) c state action m
                  = (Inl (ReducerReturnedUndefined DuringInitialization ''x''), m')"
    by (simp add: failedProbe_def)
  with cr show ?thesis by blast
qed

text \<open>
  The claim C7 as it is stated fails where a reducer probed earlier throws: the reducer
  of \<^verbatim>\<open>x\<close> returns \<^verbatim>\<open>undefined\<close> for the initialization probe, yet what the composed
  reducer of \<^verbatim>\<open>{a: ..., x: ...}\<close> throws is the TypeError the reducer of \<^verbatim>\<open>a\<close>
  threw when it was probed. It fails also where the reducer is registered under the key
  \<^verbatim>\<open>__proto__\<close>: there is no final reducer then, and the composed reducer returns.
\<close>

theorem combineReducers_defers_shape_error_counterexample:
  "ex_bad Undefined (Obj 0 Plain [(''type'', Str ActionTypes_INIT)]) 1 = (Inr Undefined, 1)
   \<and> (\<forall>p. \<exists>c n1. combineReducers (ex_environment p)
                    [(''a'', Callable ex_reads_state), (''x'', Callable ex_bad)] (\<lambda>k. ''r'') 0 = (Inr c, n1)
         \<and> combination (ex_environment p) c ex_state (ex_action ''NOOP'') 30 = (Inl EngineTypeError, 30))
   \<and> (\<forall>p. \<exists>c n1. combineReducers (ex_environment p) [(''__proto__'', Callable ex_bad)] (\<lambda>k. ''r'') 0
                    = (Inr c, n1)
         \<and> combination (ex_environment p) c ex_state (ex_action ''NOOP'') 30 = (Inr ex_state, 31))"
  by (simp add: combineReducers_def assignFinalReducer_def new_object_def ex_bad_def
      ex_reads_state_def combination_def getUnexpectedStateShapeWarningMessage_def
      ex_environment_def ex_state_def)

section \<open>Properties of the store\<close>

lemma ensure_fields [simp]:
  "currentListeners (ensureCanMutateNextListeners st) = currentListeners st"
  "currentState (ensureCanMutateNextListeners st) = currentState st"
  "isDispatching (ensureCanMutateNextListeners st) = isDispatching st"
  "invoked (ensureCanMutateNextListeners st) = invoked st"
  "subscriptions (ensureCanMutateNextListeners st) = subscriptions st"
  "observers (ensureCanMutateNextListeners st) = observers st"
  by (simp_all add: ensureCanMutateNextListeners_def)

lemma ensure_untouchable:
  assumes "untouchable a st"
  shows "nextListeners (ensureCanMutateNextListeners st) \<noteq> a"
    and "a < arrayCount (ensureCanMutateNextListeners st)"
    and "arrays (ensureCanMutateNextListeners st) a = arrays st a"
  using assms by (auto simp: untouchable_def ensureCanMutateNextListeners_def)

lemma ensure_wf: "wf_store st \<Longrightarrow> wf_store (ensureCanMutateNextListeners st)"
  by (simp add: wf_store_def ensureCanMutateNextListeners_def)

lemma subscribe_sameControl: "subscribe l st = (r, st') \<Longrightarrow> sameControl st st'"
  by (auto simp: subscribe_def sameControl_def Let_def split: if_splits)

lemma untouchable_subscriptions [simp]:
  "untouchable a (st\<lparr>subscriptions := xs\<rparr>) = untouchable a st"
  by (simp add: untouchable_def)

lemma mutate_next_untouchable:
  assumes "untouchable a st"
  shows "untouchable a (ensureCanMutateNextListeners st
            \<lparr>arrays := (arrays (ensureCanMutateNextListeners st))
               (nextListeners (ensureCanMutateNextListeners st) := xs)\<rparr>)
       \<and> arrays (ensureCanMutateNextListeners st
            \<lparr>arrays := (arrays (ensureCanMutateNextListeners st))
               (nextListeners (ensureCanMutateNextListeners st) := xs)\<rparr>) a = arrays st a"
  using ensure_untouchable [OF assms] by (simp add: untouchable_def)

lemma subscribe_untouchable:
  assumes "untouchable a st" and "subscribe l st = (r, st')"
  shows "untouchable a st' \<and> arrays st' a = arrays st a"
proof (cases "typeof l \<noteq> TFunction \<or> isDispatching st")
  case True
  with assms show ?thesis by (auto simp: subscribe_def split: if_splits)
next
  case False
  let ?st1 = "st\<lparr>subscriptions := subscriptions st @ [(l, True)]\<rparr>"
  have u1: "untouchable a ?st1" using assms(1) by simp
  from False assms(2) have "st' = ensureCanMutateNextListeners ?st1
            \<lparr>arrays := (arrays (ensureCanMutateNextListeners ?st1))
               (nextListeners (ensureCanMutateNextListeners ?st1) :=
                  arrays (ensureCanMutateNextListeners ?st1)
                    (nextListeners (ensureCanMutateNextListeners ?st1)) @ [l])\<rparr>"
    by (auto simp: subscribe_def Let_def)
  with mutate_next_untouchable [OF u1] show ?thesis by simp
qed

lemma subscribe_wf: "wf_store st \<Longrightarrow> subscribe l st = (r, st') \<Longrightarrow> wf_store st'"
proof -
  assume w: "wf_store st" and s: "subscribe l st = (r, st')"
  let ?st1 = "st\<lparr>subscriptions := subscriptions st @ [(l, True)]\<rparr>"
  have "wf_store ?st1" using w by (simp add: wf_store_def)
  from ensure_wf [OF this] s w show ?thesis
    by (auto simp: subscribe_def wf_store_def Let_def split: if_splits)
qed

lemma unsubscribe_sameControl: "unsubscribe t st = (r, st') \<Longrightarrow> sameControl st st'"
  by (auto simp: unsubscribe_def sameControl_def Let_def split: if_splits prod.splits)

lemma unsubscribe_untouchable:
  assumes "untouchable a st" and "unsubscribe t st = (r, st')"
  shows "untouchable a st' \<and> arrays st' a = arrays st a"
proof (cases "length (subscriptions st) \<le> t \<or> \<not> snd (subscriptions st ! t) \<or> isDispatching st")
  case True
  with assms show ?thesis
    by (auto simp: unsubscribe_def split: prod.splits if_splits)
next
  case False
  obtain l where l: "subscriptions st ! t = (l, True)"
    using False by (cases "subscriptions st ! t") auto
  let ?st1 = "st\<lparr>subscriptions := (subscriptions st)[t := (l, False)]\<rparr>"
  have u1: "untouchable a ?st1" using assms(1) by simp
  from False l assms(2) have "\<exists>xs. st' = ensureCanMutateNextListeners ?st1
            \<lparr>arrays := (arrays (ensureCanMutateNextListeners ?st1))
               (nextListeners (ensureCanMutateNextListeners ?st1) := xs)\<rparr>"
    by (auto simp: unsubscribe_def Let_def)
  with mutate_next_untouchable [OF u1] show ?thesis by auto
qed

lemma unsubscribe_wf: "wf_store st \<Longrightarrow> unsubscribe t st = (r, st') \<Longrightarrow> wf_store st'"
proof -
  assume w: "wf_store st" and s: "unsubscribe t st = (r, st')"
  have "wf_store (st\<lparr>subscriptions := xs\<rparr>)" for xs using w by (simp add: wf_store_def)
  from ensure_wf [OF this] s w show ?thesis
    by (auto simp: unsubscribe_def wf_store_def Let_def split: if_splits prod.splits)
qed

lemma exec_sameControl: "exec c st = (r, st') \<Longrightarrow> sameControl st st'"
  by (cases c)
     (auto simp: getState_def sameControl_def split: prod.splits sum.splits if_splits
           dest: subscribe_sameControl unsubscribe_sameControl)

lemma exec_untouchable:
  "untouchable a st \<Longrightarrow> exec c st = (r, st') \<Longrightarrow> untouchable a st' \<and> arrays st' a = arrays st a"
  by (cases c)
     (auto simp: getState_def split: prod.splits sum.splits if_splits
           dest: subscribe_untouchable unsubscribe_untouchable)

lemma exec_wf: "wf_store st \<Longrightarrow> exec c st = (r, st') \<Longrightarrow> wf_store st'"
  by (cases c)
     (auto simp: getState_def split: prod.splits sum.splits if_splits
           dest: subscribe_wf unsubscribe_wf)

lemma sameControl_refl: "sameControl st st"
  by (simp add: sameControl_def)

lemma sameControl_trans: "sameControl st st' \<Longrightarrow> sameControl st' st'' \<Longrightarrow> sameControl st st''"
  by (simp add: sameControl_def)

lemma run_sameControl: "run cs st = (r, st') \<Longrightarrow> sameControl st st'"
proof (induction cs arbitrary: st)
  case Nil
  then show ?case by (simp add: sameControl_refl)
next
  case (Cons c cs)
  obtain r1 st1 where e: "exec c st = (r1, st1)" by (cases "exec c st")
  note s1 = exec_sameControl [OF e]
  show ?case
  proof (cases r1)
    case (Inl err)
    with Cons.prems e s1 show ?thesis by simp
  next
    case (Inr u)
    with Cons.prems e have "run cs st1 = (r, st')" by simp
    from sameControl_trans [OF s1 Cons.IH [OF this]] show ?thesis .
  qed
qed

lemma run_untouchable:
  "untouchable a st \<Longrightarrow> run cs st = (r, st') \<Longrightarrow> untouchable a st' \<and> arrays st' a = arrays st a"
proof (induction cs arbitrary: st)
  case Nil
  then show ?case by simp
next
  case (Cons c cs)
  obtain r1 st1 where e: "exec c st = (r1, st1)" by (cases "exec c st")
  note u1 = exec_untouchable [OF Cons.prems(1) e]
  show ?case
  proof (cases r1)
    case (Inl err)
    with Cons.prems e u1 show ?thesis by simp
  next
    case (Inr u)
    with Cons.prems e have "run cs st1 = (r, st')" by simp
    from Cons.IH [OF _ this] u1 show ?thesis by simp
  qed
qed

lemma run_wf: "wf_store st \<Longrightarrow> run cs st = (r, st') \<Longrightarrow> wf_store st'"
proof (induction cs arbitrary: st)
  case Nil
  then show ?case by simp
next
  case (Cons c cs)
  obtain r1 st1 where e: "exec c st = (r1, st1)" by (cases "exec c st")
  note w1 = exec_wf [OF Cons.prems(1) e]
  show ?case
  proof (cases r1)
    case (Inl err)
    with Cons.prems e w1 show ?thesis by simp
  next
    case (Inr u)
    with Cons.prems e have "run cs st1 = (r, st')" by simp
    from Cons.IH [OF w1 this] show ?thesis .
  qed
qed


lemma callFunction_sameControl: "callFunction fs v st = (r, st') \<Longrightarrow> sameControl st st'"
  by (cases v) (auto simp: callFunction_def sameControl_refl dest: run_sameControl)

lemma callFunction_untouchable:
  "untouchable a st \<Longrightarrow> callFunction fs v st = (r, st')
     \<Longrightarrow> untouchable a st' \<and> arrays st' a = arrays st a"
  by (cases v) (auto simp: callFunction_def dest: run_untouchable)

lemma callFunction_wf: "wf_store st \<Longrightarrow> callFunction fs v st = (r, st') \<Longrightarrow> wf_store st'"
  by (cases v) (auto simp: callFunction_def dest: run_wf)

lemma untouchable_delivered [simp]: "untouchable a (st\<lparr>delivered := xs\<rparr>) = untouchable a st"
  by (simp add: untouchable_def)

lemma untouchable_invoked [simp]: "untouchable a (st\<lparr>invoked := xs\<rparr>) = untouchable a st"
  by (simp add: untouchable_def)

lemma wf_delivered [simp]: "wf_store (st\<lparr>delivered := xs\<rparr>) = wf_store st"
  by (simp add: wf_store_def)

lemma wf_invoked [simp]: "wf_store (st\<lparr>invoked := xs\<rparr>) = wf_store st"
  by (simp add: wf_store_def)

lemma observeState_cases:
  assumes "observeState fs observer st = (r, st')"
  shows "st' = st \<or> (\<exists>next s. callFunction fs next (st\<lparr>delivered := delivered st @ [(next, s)]\<rparr>) = (r, st'))"
  using assms
  by (auto simp: observeState_def getState_def split: sum.splits if_splits val.splits)

lemma observeState_sameControl: "observeState fs observer st = (r, st') \<Longrightarrow> sameControl st st'"
  using observeState_cases [of fs observer st r st']
  by (auto simp: sameControl_def dest!: callFunction_sameControl)

lemma observeState_untouchable:
  "untouchable a st \<Longrightarrow> observeState fs observer st = (r, st')
     \<Longrightarrow> untouchable a st' \<and> arrays st' a = arrays st a"
  using observeState_cases [of fs observer st r st']
  by (auto dest!: callFunction_untouchable [rotated])

lemma observeState_wf: "wf_store st \<Longrightarrow> observeState fs observer st = (r, st') \<Longrightarrow> wf_store st'"
  using observeState_cases [of fs observer st r st']
  by (auto dest!: callFunction_wf [rotated])

lemma callListener_cases:
  assumes "callListener fs l st = (r, st')"
  shows "st' = st\<lparr>invoked := invoked st @ [l]\<rparr>
       \<or> (\<exists>observer. observeState fs observer (st\<lparr>invoked := invoked st @ [l]\<rparr>) = (r, st'))
       \<or> callFunction fs l (st\<lparr>invoked := invoked st @ [l]\<rparr>) = (r, st')"
  using assms
  by (auto simp: callListener_def Let_def split: val.splits option.splits)

lemma callListener_control:
  assumes "callListener fs l st = (r, st')"
  shows "currentListeners st' = currentListeners st \<and> currentState st' = currentState st
       \<and> isDispatching st' = isDispatching st \<and> invoked st' = invoked st @ [l]
       \<and> observers st' = observers st"
  using callListener_cases [OF assms]
  by (auto simp: sameControl_def dest!: observeState_sameControl callFunction_sameControl)

lemma callListener_untouchable:
  "untouchable a st \<Longrightarrow> callListener fs l st = (r, st')
     \<Longrightarrow> untouchable a st' \<and> arrays st' a = arrays st a"
  using callListener_cases [of fs l st r st']
  by (auto dest!: observeState_untouchable [rotated] callFunction_untouchable [rotated])

lemma callListener_wf: "wf_store st \<Longrightarrow> callListener fs l st = (r, st') \<Longrightarrow> wf_store st'"
  using callListener_cases [of fs l st r st']
  by (auto dest!: observeState_wf [rotated] callFunction_wf [rotated])

lemma callAll_control:
  assumes "callAll fs ls st = (r, st')"
  shows "currentListeners st' = currentListeners st \<and> currentState st' = currentState st
       \<and> isDispatching st' = isDispatching st \<and> observers st' = observers st
       \<and> (case r of
             Inr u \<Rightarrow> invoked st' = invoked st @ ls
           | Inl e \<Rightarrow> \<exists>k<length ls. invoked st' = invoked st @ take (Suc k) ls)"
  using assms
proof (induction ls arbitrary: st)
  case Nil
  then show ?case by auto
next
  case (Cons l ls)
  obtain r1 st1 where c: "callListener fs l st = (r1, st1)" by (cases "callListener fs l st")
  note c1 = callListener_control [OF c]
  show ?case
  proof (cases r1)
    case (Inl e)
    with Cons.prems c have "r = Inl e" "st' = st1" by simp_all
    with c1 show ?thesis by auto
  next
    case (Inr u)
    with Cons.prems c have rest: "callAll fs ls st1 = (r, st')" by simp
    note ih = Cons.IH [OF rest]
    show ?thesis
    proof (cases r)
      case (Inl e)
      with ih obtain k where "k < length ls" "invoked st' = invoked st1 @ take (Suc k) ls" by auto
      with c1 have "Suc k < length (l # ls)" "invoked st' = invoked st @ take (Suc (Suc k)) (l # ls)"
        by simp_all
      with ih c1 Inl show ?thesis by (simp del: take_Suc_Cons) blast
    next
      case (Inr w)
      with ih c1 show ?thesis by simp
    qed
  qed
qed

lemma callAll_untouchable:
  "untouchable a st \<Longrightarrow> callAll fs ls st = (r, st')
     \<Longrightarrow> untouchable a st' \<and> arrays st' a = arrays st a"
proof (induction ls arbitrary: st)
  case Nil
  then show ?case by simp
next
  case (Cons l ls)
  obtain r1 st1 where c: "callListener fs l st = (r1, st1)" by (cases "callListener fs l st")
  note u1 = callListener_untouchable [OF Cons.prems(1) c]
  show ?case
  proof (cases r1)
    case (Inl e)
    with Cons.prems c u1 show ?thesis by simp
  next
    case (Inr u)
    with Cons.prems c have "callAll fs ls st1 = (r, st')" by simp
    from Cons.IH [OF _ this] u1 show ?thesis by simp
  qed
qed

lemma callAll_wf: "wf_store st \<Longrightarrow> callAll fs ls st = (r, st') \<Longrightarrow> wf_store st'"
proof (induction ls arbitrary: st)
  case Nil
  then show ?case by simp
next
  case (Cons l ls)
  obtain r1 st1 where c: "callListener fs l st = (r1, st1)" by (cases "callListener fs l st")
  note w1 = callListener_wf [OF Cons.prems(1) c]
  show ?case
  proof (cases r1)
    case (Inl e)
    with Cons.prems c w1 show ?thesis by simp
  next
    case (Inr u)
    with Cons.prems c have "callAll fs ls st1 = (r, st')" by simp
    from Cons.IH [OF w1 this] show ?thesis .
  qed
qed

lemma notify_snapshot:
  "untouchable a st \<Longrightarrow> notify fs a i st = Some (callAll fs (drop i (arrays st a)) st)"
proof (induction "length (arrays st a) - i" arbitrary: i st)
  case 0
  then have "\<not> i < length (arrays st a)" by simp
  then show ?case by (subst notify.simps) simp
next
  case (Suc d)
  then have lt: "i < length (arrays st a)" by simp
  obtain r1 st1 where c: "callListener fs (arrays st a ! i) st = (r1, st1)"
    by (cases "callListener fs (arrays st a ! i) st")
  note u1 = callListener_untouchable [OF Suc.prems c]
  have dr: "drop i (arrays st a) = arrays st a ! i # drop (Suc i) (arrays st a)"
    using lt by (simp add: Cons_nth_drop_Suc)
  show ?case
  proof (cases r1)
    case (Inl e)
    with c lt dr show ?thesis by (subst notify.simps) simp
  next
    case (Inr u)
    from Suc.hyps(2) u1 have "d = length (arrays st1 a) - Suc i" by simp
    from Suc.hyps(1) [OF this] u1
    have "notify fs a (Suc i) st1 = Some (callAll fs (drop (Suc i) (arrays st1 a)) st1)" by simp
    with u1 c lt dr Inr show ?thesis by (subst notify.simps) simp
  qed
qed

subsection \<open>Dispatch\<close>

lemma not_dispatching_update: "\<not> isDispatching st \<Longrightarrow> st\<lparr>isDispatching := False\<rparr> = st"
  by simp

lemma validAction_type:
  assumes "validAction fs action"
  obtains t where "isPlainObject action" and "get_prop (environmentOf fs) action ''type'' = Inr t"
    and "t \<noteq> Undefined"
  using assms unfolding validAction_def by (auto split: sum.splits)

lemma dispatch_run_typed:
  assumes "wf_store st" and "isPlainObject action"
      and "get_prop (environmentOf fs) action ''type'' = Inr t" and "t \<noteq> Undefined"
      and "\<not> isDispatching st"
      and "currentReducer st (currentState st) action (objectCount st) = (Inr s, n)"
  shows "dispatch fs action st =
           Some (case callAll fs (registry st) (afterReducer st s n) of
                   (Inl e, st') \<Rightarrow> (Inl e, st')
                 | (Inr u, st') \<Rightarrow> (Inr action, st'))"
proof -
  let ?st3 = "afterReducer st s n"
  have eq: "st\<lparr>objectCount := n, currentState := s, isDispatching := False,
              currentListeners := nextListeners st\<rparr>
            = st\<lparr>objectCount := n, currentState := s, currentListeners := nextListeners st\<rparr>"
    using assms(5) by (cases st) simp
  have u: "untouchable (nextListeners st) ?st3"
    using assms(1) by (simp add: untouchable_def wf_store_def afterReducer_def)
  have n: "notify fs (nextListeners st) 0 ?st3 = Some (callAll fs (registry st) ?st3)"
    using notify_snapshot [OF u, of fs 0] by (simp add: registry_def afterReducer_def)
  from assms(2-6) have "dispatch fs action st =
      (case notify fs (nextListeners st) 0 ?st3 of
         None \<Rightarrow> None
       | Some (Inl e, st4) \<Rightarrow> Some (Inl e, st4)
       | Some (Inr u, st4) \<Rightarrow> Some (Inr action, st4))"
    by (simp add: dispatch_def Let_def afterReducer_def eq)
  then show ?thesis
    by (simp add: n split: prod.splits sum.splits)
qed

lemma dispatch_run:
  assumes "wf_store st" and "validAction fs action" and "\<not> isDispatching st"
      and "currentReducer st (currentState st) action (objectCount st) = (Inr s, n)"
  shows "dispatch fs action st =
           Some (case callAll fs (registry st) (afterReducer st s n) of
                   (Inl e, st') \<Rightarrow> (Inl e, st')
                 | (Inr u, st') \<Rightarrow> (Inr action, st'))"
proof -
  from assms(2) obtain t where "isPlainObject action"
    "get_prop (environmentOf fs) action ''type'' = Inr t" "t \<noteq> Undefined"
    by (rule validAction_type)
  from dispatch_run_typed [OF assms(1) this assms(3,4)] show ?thesis .
qed

lemma isPlainObject_get_prop: "isPlainObject a \<Longrightarrow> \<exists>t. get_prop env a k = Inr t"
  by (cases a) (auto simp: get_prop_def split: option.splits)

lemma dispatch_wf:
  assumes "wf_store st" and "dispatch fs action st = Some (r, st')"
  shows "wf_store st'"
proof (cases "isPlainObject action")
  case False
  with assms show ?thesis by (simp add: dispatch_def)
next
  case True
  from isPlainObject_get_prop [OF True] obtain t where
    t: "get_prop (environmentOf fs) action ''type'' = Inr t" by blast
  show ?thesis
  proof (cases "t = Undefined \<or> isDispatching st")
    case True
    with t \<open>isPlainObject action\<close> assms show ?thesis
      by (auto simp: dispatch_def split: if_splits)
  next
    case False
    then have tu: "t \<noteq> Undefined" and nd: "\<not> isDispatching st" by simp_all
    obtain res n where red: "currentReducer st (currentState st) action (objectCount st) = (res, n)"
      by (cases "currentReducer st (currentState st) action (objectCount st)")
    show ?thesis
    proof (cases res)
      case (Inl e)
      with \<open>isPlainObject action\<close> t tu nd assms red show ?thesis
        by (auto simp: dispatch_def wf_store_def)
    next
      case (Inr s)
      obtain r1 st1 where c: "callAll fs (registry st) (afterReducer st s n) = (r1, st1)"
        by (cases "callAll fs (registry st) (afterReducer st s n)")
      have "wf_store (afterReducer st s n)"
        using assms(1) by (simp add: wf_store_def afterReducer_def)
      from callAll_wf [OF this c] have "wf_store st1" .
      moreover from dispatch_run_typed [OF assms(1) \<open>isPlainObject action\<close> t tu nd, of s n] red Inr c assms(2)
      have "st' = st1" by (auto split: sum.splits)
      ultimately show ?thesis by simp
    qed
  qed
qed

lemma ex_init_valid: "validAction fs (Obj n Plain [(''type'', Str ActionTypes_INIT)])"
  by (simp add: validAction_def get_prop_def)

lemma createStore_body_wf:
  assumes "createStore_body fs reducer preloadedState n x = Some (Inr (store, st))"
  shows "wf_store st \<and> \<not> isDispatching st \<and> dispatch_of store = dispatch fs"
proof -
  from assms obtain r where r: "reducer = Callable r"
    by (cases reducer) (auto simp: createStore_body_def)
  let ?st0 = "\<lparr>currentReducer = r, currentState = preloadedState,
                        currentListeners = 0, nextListeners = 0, isDispatching = False,
                        arrays = (\<lambda>a. []), arrayCount = 1, subscriptions = [],
                        observers = [], objectCount = Suc n, invoked = [], delivered = [],
                        outside = x\<rparr>"
  have w: "wf_store ?st0" by (simp add: wf_store_def)
  from assms r obtain a where d: "dispatch fs (Obj n Plain [(''type'', Str ActionTypes_INIT)]) ?st0 = Some (Inr a, st)"
    and m: "dispatch_of store = dispatch fs"
    by (auto simp: createStore_body_def new_object_def split: option.splits sum.splits prod.splits)
  note v = ex_init_valid [of fs n]
  obtain res k where red: "r preloadedState (Obj n Plain [(''type'', Str ActionTypes_INIT)]) (Suc n) = (res, k)"
    by (cases "r preloadedState (Obj n Plain [(''type'', Str ActionTypes_INIT)]) (Suc n)")
  have nd: "\<not> isDispatching st"
  proof (cases res)
    case (Inl e)
    with d red show ?thesis by (simp add: dispatch_def get_prop_def)
  next
    case (Inr s)
    have red': "currentReducer ?st0 (currentState ?st0) (Obj n Plain [(''type'', Str ActionTypes_INIT)])
        (objectCount ?st0) = (Inr s, k)" using red Inr by simp
    have nd0: "\<not> isDispatching ?st0" by simp
    obtain r1 st1 where c: "callAll fs (registry ?st0) (afterReducer ?st0 s k) = (r1, st1)"
      by (cases "callAll fs (registry ?st0) (afterReducer ?st0 s k)")
    from dispatch_run [OF w v nd0 red'] c d have "st = st1" by (auto split: sum.splits)
    with callAll_control [OF c] show ?thesis by (simp add: afterReducer_def)
  qed
  from dispatch_wf [OF w d] nd m show ?thesis by simp
qed

lemma createStore_body_returns:
  assumes "r preloadedState (Obj n Plain [(''type'', Str ActionTypes_INIT)]) (Suc n) = (Inr s, k)"
  shows "createStore_body fs (Callable r) preloadedState n x =
     Some (Inr (\<lparr>dispatch_of = dispatch fs, subscribe_of = subscribe,
                  getState_of = getState, replaceReducer_of = replaceReducer fs,
                  observableSubscribe_of = observableSubscribe fs\<rparr>,
                \<lparr>currentReducer = r, currentState = s,
                 currentListeners = 0, nextListeners = 0, isDispatching = False,
                 arrays = (\<lambda>a. []), arrayCount = 1, subscriptions = [],
                 observers = [], objectCount = k, invoked = [], delivered = [],
                 outside = x\<rparr>))"
proof -
  let ?a = "Obj n Plain [(''type'', Str ActionTypes_INIT)]"
  let ?st0 = "\<lparr>currentReducer = r, currentState = preloadedState,
                        currentListeners = 0, nextListeners = 0, isDispatching = False,
                        arrays = (\<lambda>a. []), arrayCount = 1, subscriptions = [],
                        observers = [], objectCount = Suc n, invoked = [], delivered = [],
                        outside = x\<rparr>"
  have w: "wf_store ?st0" by (simp add: wf_store_def)
  note v = ex_init_valid [of fs n]
  have nd: "\<not> isDispatching ?st0" by simp
  have red: "currentReducer ?st0 (currentState ?st0) ?a (objectCount ?st0) = (Inr s, k)"
    using assms by simp
  have "dispatch fs ?a ?st0 = Some (Inr ?a, afterReducer ?st0 s k)"
    using dispatch_run [OF w v nd red] by (simp add: registry_def)
  then show ?thesis
    by (simp add: createStore_body_def new_object_def afterReducer_def)
qed

text \<open>
  The two branches on \<open>enhancer\<close>: with neither a function in second place nor a third
  argument \<^verbatim>\<open>createStore\<close> builds the store itself; a function in second place with no
  third argument is the enhancer, as is a function in third place, and it is handed the
  constructor, the reducer and the preloaded state; an enhancer that is no function is
  refused.
\<close>

lemma createStore_branches:
  "typeof preloadedState \<noteq> TFunction \<Longrightarrow>
     createStore (Suc k) es fs reducer preloadedState Undefined n x
       = createStore_body fs reducer preloadedState n x"
  "createStore (Suc k) es fs reducer (Fun f) Undefined n x
       = es f (createStore k es fs) reducer Undefined n x"
  "createStore (Suc k) es fs reducer preloadedState (Fun f) n x
       = es f (createStore k es fs) reducer preloadedState n x"
  "typeof enhancer \<noteq> TUndefined \<Longrightarrow> typeof enhancer \<noteq> TFunction \<Longrightarrow>
     createStore (Suc k) es fs reducer preloadedState enhancer n x = Some (Inl InvalidEnhancer)"
  by (cases enhancer; simp)+

lemma replaceReducer_wf:
  assumes "wf_store st" and "replaceReducer fs nextReducer st = Some (r, st')"
  shows "wf_store st'"
proof (cases nextReducer)
  case (NotCallable v)
  with assms show ?thesis by (simp add: replaceReducer_def)
next
  case (Callable red)
  let ?st1 = "st\<lparr>currentReducer := red, objectCount := Suc (objectCount st)\<rparr>"
  have w: "wf_store ?st1" using assms(1) by (simp add: wf_store_def)
  from assms(2) Callable obtain r1 where
    "dispatch fs (Obj (objectCount st) Plain [(''type'', Str ActionTypes_REPLACE)]) ?st1 = Some (r1, st')"
    by (auto simp: replaceReducer_def new_object_def split: option.splits sum.splits prod.splits)
  from dispatch_wf [OF w this] show ?thesis .
qed

lemma observableSubscribe_wf:
  assumes "wf_store st" and "observableSubscribe fs observer st = (r, st')"
  shows "wf_store st'"
proof (cases "typeof observer \<noteq> TObject")
  case True
  with assms show ?thesis by (simp add: observableSubscribe_def)
next
  case False
  let ?st1 = "st\<lparr>observers := (objectCount st, observer) # observers st,
                      objectCount := Suc (objectCount st)\<rparr>"
  have w1: "wf_store ?st1" using assms(1) by (simp add: wf_store_def)
  obtain r2 st2 where o: "observeState fs observer ?st1 = (r2, st2)"
    by (cases "observeState fs observer ?st1")
  note w2 = observeState_wf [OF w1 o]
  show ?thesis
  proof (cases r2)
    case (Inl e)
    with assms(2) False o w2 show ?thesis by (simp add: observableSubscribe_def Let_def)
  next
    case (Inr u)
    obtain r3 st3 where s: "subscribe (Fun (objectCount st)) st2 = (r3, st3)"
      by (cases "subscribe (Fun (objectCount st)) st2")
    note w3 = subscribe_wf [OF w2 s]
    from assms(2) False o Inr s w3 show ?thesis
      by (cases r3) (auto simp: observableSubscribe_def Let_def wf_store_def)
  qed
qed

subsection \<open>What \<open>subscribe\<close> and \<open>unsubscribe\<close> do to the registry\<close>

lemma strict_eq_function: "typeof x = TFunction \<Longrightarrow> strict_eq x l = (x = l)"
  by (cases x; cases l) simp_all

lemma indexOf_nonneg:
  assumes "list_all (\<lambda>l. typeof l = TFunction) xs" and "l \<in> set xs"
  shows "0 \<le> indexOf xs l"
  using assms by (induction xs) (auto simp: strict_eq_function Let_def)

lemma splice1_head: "splice1 0 (x # xs) = xs"
  by (simp add: splice1_def)

lemma splice1_Cons: "0 \<le> i \<Longrightarrow> splice1 (i + 1) (x # xs) = x # splice1 i xs"
proof -
  assume i: "0 \<le> i"
  then have "nat (min (i + 1) (int (length (x # xs)))) = Suc (nat (min i (int (length xs))))"
    by (simp add: min_def) linarith
  with i show ?thesis by (simp add: splice1_def Let_def)
qed

text \<open>
  In a registry of functions, \<^verbatim>\<open>indexOf\<close> finds the first registration of a listener
  that is registered, and \<^verbatim>\<open>splice\<close> removes that one.
\<close>

lemma indexOf_remove1:
  assumes "list_all (\<lambda>l. typeof l = TFunction) xs" and "l \<in> set xs"
  shows "splice1 (indexOf xs l) xs = remove1 l xs"
  using assms
proof (induction xs)
  case Nil
  then show ?case by simp
next
  case (Cons x xs)
  from Cons.prems have fx: "typeof x = TFunction" and fs: "list_all (\<lambda>l. typeof l = TFunction) xs"
    by simp_all
  show ?case
  proof (cases "x = l")
    case True
    with fx have "strict_eq x l" by (simp add: strict_eq_function)
    with True show ?thesis by (simp add: splice1_head)
  next
    case False
    with Cons.prems have mem: "l \<in> set xs" by simp
    note nn = indexOf_nonneg [OF fs mem]
    from False nn have "indexOf (x # xs) l = indexOf xs l + 1"
      by (simp add: strict_eq_function [OF fx] Let_def)
    with Cons.IH [OF fs mem] nn False show ?thesis
      by (simp add: splice1_Cons)
  qed
qed

lemma listening_fields [simp]:
  "listening (st\<lparr>invoked := xs\<rparr>) = listening st"
  "listening (st\<lparr>delivered := ys\<rparr>) = listening st"
  by (simp_all add: listening_def registry_def)

lemma consistent_fields [simp]:
  "consistent (st\<lparr>invoked := xs\<rparr>) = consistent st"
  "consistent (st\<lparr>delivered := ys\<rparr>) = consistent st"
  by (simp_all add: consistent_def registry_def)

lemma subscribe_registry:
  "subscribe l st = (Inr t, st1) \<Longrightarrow> registry st1 = registry st @ [l]"
  by (auto simp: subscribe_def registry_def Let_def ensureCanMutateNextListeners_def split: if_splits)

lemma subscribe_subscriptions:
  "subscribe l st = (Inr t, st1) \<Longrightarrow> subscriptions st1 = subscriptions st @ [(l, True)]"
  by (auto simp: subscribe_def Let_def ensureCanMutateNextListeners_def split: if_splits)

lemma subscribe_throws:
  "subscribe l st = (Inl e, st1) \<Longrightarrow> st1 = st \<and> (typeof l \<noteq> TFunction \<or> isDispatching st)"
  by (auto simp: subscribe_def Let_def split: if_splits)

lemma subscribe_effect:
  assumes "\<not> isDispatching st" and "consistent st" and "subscribe l st = (r, st')"
  shows "cmdEffect (CallSubscribe l) (listening st) = (returned r, listening st') \<and> consistent st'"
proof (cases r)
  case (Inl e)
  with assms(3) subscribe_throws [of l st e st'] assms(1,2) show ?thesis
    by (auto simp: listening_def)
next
  case (Inr t)
  with assms(3) have s: "subscribe l st = (Inr t, st')" by simp
  then have f: "typeof l = TFunction" by (auto simp: subscribe_def split: if_splits)
  note reg = subscribe_registry [OF s] and subs = subscribe_subscriptions [OF s]
  from assms(2) f have "consistent st'" by (simp add: consistent_def reg subs)
  with f Inr show ?thesis by (simp add: listening_def reg subs)
qed

lemma unsubscribe_run:
  assumes "t < length (subscriptions st)" and "subscriptions st ! t = (l, True)"
      and "\<not> isDispatching st" and "unsubscribe t st = (r, st')"
  shows "r = Inr ()
       \<and> registry st' = splice1 (indexOf (registry st) l) (registry st)
       \<and> subscriptions st' = (subscriptions st)[t := (l, False)]"
  using assms
  by (auto simp: unsubscribe_def registry_def Let_def ensureCanMutateNextListeners_def split: if_splits)

lemma subscribed_registered:
  assumes "consistent st" and "t < length (subscriptions st)" and "subscriptions st ! t = (l, True)"
  shows "l \<in> set (registry st)"
proof -
  from assms(2,3) have "(l, True) \<in> set (subscriptions st)" by (metis nth_mem)
  then have "l \<in> set (map fst (filter snd (subscriptions st)))" by force
  then have "l \<in># mset (map fst (filter snd (subscriptions st)))" by simp
  with assms(1) have "l \<in># mset (registry st)" by (simp add: consistent_def)
  then show ?thesis by simp
qed

lemma mset_subscribed_update:
  assumes "t < length subs" and "subs ! t = (l, True)"
  shows "mset (map fst (filter snd (subs[t := (l, False)]))) = mset (map fst (filter snd subs)) - {#l#}"
proof -
  from assms have a: "subs = take t subs @ (l, True) # drop (Suc t) subs"
    by (metis id_take_nth_drop)
  from assms(1) have b: "subs[t := (l, False)] = take t subs @ (l, False) # drop (Suc t) subs"
    by (rule upd_conv_take_nth_drop)
  have "mset (map fst (filter snd (take t subs @ (l, True) # drop (Suc t) subs)))
      = mset (map fst (filter snd (take t subs @ (l, False) # drop (Suc t) subs))) + {#l#}"
    by simp
  with a b show ?thesis by (metis add_diff_cancel_right')
qed

text \<open>
  A closure that is still subscribed, called outside a reducer on a consistent store,
  removes the first registration of its own listener, whichever it is, and nothing else.
\<close>

lemma unsubscribe_removes:
  assumes "consistent st" and "t < length (subscriptions st)" and "subscriptions st ! t = (l, True)"
      and "\<not> isDispatching st" and "unsubscribe t st = (r, st')"
  shows "r = Inr () \<and> registry st' = remove1 l (registry st)
       \<and> subscriptions st' = (subscriptions st)[t := (l, False)] \<and> consistent st'"
proof -
  note run = unsubscribe_run [OF assms(2-5)]
  note mem = subscribed_registered [OF assms(1-3)]
  from assms(1) have fn: "list_all (\<lambda>l. typeof l = TFunction) (registry st)"
    by (simp add: consistent_def)
  from run indexOf_remove1 [OF fn mem] have reg: "registry st' = remove1 l (registry st)" by simp
  from assms(1) have ms: "mset (registry st) = mset (map fst (filter snd (subscriptions st)))"
    by (simp add: consistent_def)
  have m1: "mset (registry st') = mset (registry st) - {#l#}" by (simp add: reg)
  from run have su: "subscriptions st' = (subscriptions st)[t := (l, False)]" by simp
  have "mset (registry st') = mset (map fst (filter snd (subscriptions st')))"
    by (simp only: m1 ms su mset_subscribed_update [OF assms(2,3)])
  moreover have "list_all (\<lambda>l. typeof l = TFunction) (registry st')"
    using fn reg by (metis (mono_tags, lifting) list_all_iff notin_set_remove1)
  ultimately have "consistent st'" by (simp add: consistent_def)
  with run reg show ?thesis by simp
qed

lemma unsubscribe_effect:
  assumes "\<not> isDispatching st" and "consistent st" and "unsubscribe t st = (r, st')"
  shows "cmdEffect (CallUnsubscribe t) (listening st) = (returned r, listening st') \<and> consistent st'"
proof (cases "t < length (subscriptions st)")
  case False
  with assms show ?thesis by (auto simp: unsubscribe_def listening_def)
next
  case True
  obtain l on where e: "subscriptions st ! t = (l, on)" by (cases "subscriptions st ! t")
  show ?thesis
  proof (cases on)
    case False
    with True e assms show ?thesis by (auto simp: unsubscribe_def listening_def)
  next
    case isOn: True
    with e have e': "subscriptions st ! t = (l, True)" by simp
    from unsubscribe_removes [OF assms(2) True e' assms(1,3)] True e'
    show ?thesis by (simp add: listening_def)
  qed
qed

lemma exec_effect:
  assumes "\<not> isDispatching st" and "consistent st" and "exec c st = (r, st')"
  shows "cmdEffect c (listening st) = (returned r, listening st') \<and> consistent st'"
proof (cases c)
  case (CallSubscribe l)
  obtain r1 st1 where s: "subscribe l st = (r1, st1)" by (cases "subscribe l st")
  from subscribe_effect [OF assms(1,2) s] s assms(3) CallSubscribe show ?thesis
    by (cases r1) auto
next
  case (CallUnsubscribe t)
  with unsubscribe_effect [OF assms(1,2), of t r st'] assms(3) show ?thesis by simp
next
  case CallGetState
  with assms show ?thesis by (auto simp: getState_def listening_def)
next
  case (Throw e)
  with assms show ?thesis by (auto simp: listening_def)
qed

lemma run_effect:
  assumes "\<not> isDispatching st" and "consistent st" and "run cs st = (r, st')"
  shows "bodyEffect cs (listening st) = (returned r, listening st') \<and> consistent st'"
  using assms
proof (induction cs arbitrary: st)
  case Nil
  then show ?case by auto
next
  case (Cons c cs)
  obtain r1 st1 where e: "exec c st = (r1, st1)" by (cases "exec c st")
  note eff = exec_effect [OF Cons.prems(1,2) e]
  from exec_sameControl [OF e] Cons.prems(1) have nd1: "\<not> isDispatching st1"
    by (simp add: sameControl_def)
  show ?case
  proof (cases r1)
    case (Inl err)
    with Cons.prems(3) e eff show ?thesis by auto
  next
    case (Inr u)
    with Cons.prems(3) e have "run cs st1 = (r, st')" by simp
    from Cons.IH [OF nd1 _ this] eff Inr show ?thesis by simp
  qed
qed

lemma observeState_effect:
  assumes "\<not> isDispatching st" and "consistent st" and "observeState fs observer st = (r, st')"
  shows "observerEffect fs observer (listening st) = (returned r, listening st') \<and> consistent st'"
proof (cases "get_prop (environmentOf fs) observer ''next''")
  case (Inl e)
  with assms show ?thesis by (auto simp: observeState_def observerEffect_def)
next
  case (Inr nxt)
  show ?thesis
  proof (cases "truthy nxt")
    case False
    with Inr assms show ?thesis by (auto simp: observeState_def observerEffect_def)
  next
    case True
    show ?thesis
    proof (cases "\<exists>g. nxt = Fun g")
      case False
      with Inr True assms show ?thesis
        by (cases nxt) (auto simp: observeState_def observerEffect_def getState_def)
    next
      case isFun: True
      then obtain g where g: "nxt = Fun g" by blast
      let ?st1 = "st\<lparr>delivered := delivered st @ [(nxt, currentState st)]\<rparr>"
      from Inr True g assms(1,3) have "run (functionBody fs g) ?st1 = (r, st')"
        by (simp add: observeState_def getState_def callFunction_def)
      from run_effect [OF _ _ this] assms(1,2) Inr True g show ?thesis
        by (simp add: observerEffect_def)
    qed
  qed
qed

lemma callListener_effect:
  assumes "\<not> isDispatching st" and "consistent st" and "callListener fs l st = (r, st')"
  shows "listenerEffect fs (observers st) l (listening st) = (returned r, listening st')
         \<and> consistent st'"
proof (cases "\<exists>f. l = Fun f")
  case False
  with assms show ?thesis
    by (cases l) (auto simp: callListener_def listenerEffect_def Let_def)
next
  case True
  then obtain f where f: "l = Fun f" by blast
  let ?st1 = "st\<lparr>invoked := invoked st @ [l]\<rparr>"
  have nd1: "\<not> isDispatching ?st1" and c1: "consistent ?st1" using assms(1,2) by simp_all
  show ?thesis
  proof (cases "map_of (observers st) f")
    case None
    with f assms(3) have "run (functionBody fs f) ?st1 = (r, st')"
      by (simp add: callListener_def Let_def callFunction_def)
    from run_effect [OF nd1 c1 this] None f show ?thesis
      by (simp add: listenerEffect_def)
  next
    case (Some observer)
    with f assms(3) have "observeState fs observer ?st1 = (r, st')"
      by (simp add: callListener_def Let_def)
    from observeState_effect [OF nd1 c1 this] Some f show ?thesis
      by (simp add: listenerEffect_def)
  qed
qed

lemma callAll_effect:
  assumes "\<not> isDispatching st" and "consistent st" and "callAll fs ls st = (r, st')"
  shows "phaseEffect fs (observers st) ls (listening st) = (returned r, listening st')
         \<and> consistent st'"
  using assms
proof (induction ls arbitrary: st)
  case Nil
  then show ?case by auto
next
  case (Cons l ls)
  obtain r1 st1 where c: "callListener fs l st = (r1, st1)" by (cases "callListener fs l st")
  note eff = callListener_effect [OF Cons.prems(1,2) c]
  from callListener_control [OF c] Cons.prems(1)
  have nd1: "\<not> isDispatching st1" and ob: "observers st1 = observers st" by simp_all
  show ?case
  proof (cases r1)
    case (Inl e)
    with Cons.prems(3) c eff show ?thesis by auto
  next
    case (Inr u)
    with Cons.prems(3) c have "callAll fs ls st1 = (r, st')" by simp
    from Cons.IH [OF nd1 _ this] eff Inr ob show ?thesis by simp
  qed
qed

text \<open>
  Consistency is an invariant of the store, as well-formedness is: the store that
  \<open>createStore\<close> returns is consistent, and \<open>dispatch\<close>, \<open>replaceReducer\<close> and the
  observable's \<open>subscribe\<close> keep a store consistent, as \<open>subscribe\<close> and
  \<open>unsubscribe\<close> do.
\<close>

lemma dispatch_consistent:
  assumes "wf_store st" and "consistent st" and "dispatch fs action st = Some (r, st')"
  shows "consistent st'"
proof (cases "isPlainObject action")
  case False
  with assms show ?thesis by (simp add: dispatch_def)
next
  case True
  from isPlainObject_get_prop [OF True] obtain t where
    t: "get_prop (environmentOf fs) action ''type'' = Inr t" by blast
  show ?thesis
  proof (cases "t = Undefined \<or> isDispatching st")
    case True
    with t \<open>isPlainObject action\<close> assms show ?thesis
      by (auto simp: dispatch_def split: if_splits)
  next
    case False
    then have tu: "t \<noteq> Undefined" and nd: "\<not> isDispatching st" by simp_all
    obtain res n where red: "currentReducer st (currentState st) action (objectCount st) = (res, n)"
      by (cases "currentReducer st (currentState st) action (objectCount st)")
    show ?thesis
    proof (cases res)
      case (Inl e)
      with \<open>isPlainObject action\<close> t tu nd assms red show ?thesis
        by (auto simp: dispatch_def consistent_def registry_def)
    next
      case (Inr s)
      obtain r1 st1 where c: "callAll fs (registry st) (afterReducer st s n) = (r1, st1)"
        by (cases "callAll fs (registry st) (afterReducer st s n)")
      have "\<not> isDispatching (afterReducer st s n)" "consistent (afterReducer st s n)"
        using nd assms(2) by (simp_all add: afterReducer_def consistent_def registry_def)
      from callAll_effect [OF this c] have "consistent st1" by simp
      moreover from dispatch_run_typed [OF assms(1) \<open>isPlainObject action\<close> t tu nd, of s n] red Inr c assms(3)
      have "st' = st1" by (auto split: sum.splits)
      ultimately show ?thesis by simp
    qed
  qed
qed

lemma createStore_body_consistent:
  assumes "createStore_body fs reducer preloadedState n x = Some (Inr (store, st))"
  shows "consistent st"
proof -
  from assms obtain r where r: "reducer = Callable r"
    by (cases reducer) (auto simp: createStore_body_def)
  let ?st0 = "\<lparr>currentReducer = r, currentState = preloadedState,
                        currentListeners = 0, nextListeners = 0, isDispatching = False,
                        arrays = (\<lambda>a. []), arrayCount = 1, subscriptions = [],
                        observers = [], objectCount = Suc n, invoked = [], delivered = [],
                        outside = x\<rparr>"
  have w: "wf_store ?st0" by (simp add: wf_store_def)
  have c: "consistent ?st0" by (simp add: consistent_def registry_def)
  from assms r obtain a where "dispatch fs (Obj n Plain [(''type'', Str ActionTypes_INIT)]) ?st0 = Some (Inr a, st)"
    by (auto simp: createStore_body_def new_object_def split: option.splits sum.splits prod.splits)
  from dispatch_consistent [OF w c this] show ?thesis .
qed

lemma replaceReducer_consistent:
  assumes "wf_store st" and "consistent st" and "replaceReducer fs nextReducer st = Some (r, st')"
  shows "consistent st'"
proof (cases nextReducer)
  case (NotCallable v)
  with assms show ?thesis by (simp add: replaceReducer_def)
next
  case (Callable red)
  let ?st1 = "st\<lparr>currentReducer := red, objectCount := Suc (objectCount st)\<rparr>"
  have w: "wf_store ?st1" using assms(1) by (simp add: wf_store_def)
  have c: "consistent ?st1" using assms(2) by (simp add: consistent_def registry_def)
  from assms(3) Callable obtain r1 where
    "dispatch fs (Obj (objectCount st) Plain [(''type'', Str ActionTypes_REPLACE)]) ?st1 = Some (r1, st')"
    by (auto simp: replaceReducer_def new_object_def split: option.splits sum.splits prod.splits)
  from dispatch_consistent [OF w c this] show ?thesis .
qed

lemma observableSubscribe_consistent:
  assumes "\<not> isDispatching st" and "consistent st" and "observableSubscribe fs observer st = (r, st')"
  shows "consistent st'"
proof (cases "typeof observer \<noteq> TObject")
  case True
  with assms show ?thesis by (simp add: observableSubscribe_def)
next
  case False
  let ?st1 = "st\<lparr>observers := (objectCount st, observer) # observers st,
                      objectCount := Suc (objectCount st)\<rparr>"
  have nd1: "\<not> isDispatching ?st1" using assms(1) by simp
  have c1: "consistent ?st1" using assms(2) by (simp add: consistent_def registry_def)
  obtain r2 st2 where o: "observeState fs observer ?st1 = (r2, st2)"
    by (cases "observeState fs observer ?st1")
  from observeState_effect [OF nd1 c1 o] have c2: "consistent st2" by simp
  from observeState_sameControl [OF o] nd1 have nd2: "\<not> isDispatching st2"
    by (simp add: sameControl_def)
  show ?thesis
  proof (cases r2)
    case (Inl e)
    with assms(3) False o c2 show ?thesis by (simp add: observableSubscribe_def Let_def)
  next
    case (Inr u)
    obtain r3 st3 where s: "subscribe (Fun (objectCount st)) st2 = (r3, st3)"
      by (cases "subscribe (Fun (objectCount st)) st2")
    from subscribe_effect [OF nd2 c2 s] have c3: "consistent st3" by simp
    from assms(3) False o Inr s c3 show ?thesis
      by (cases r3) (auto simp: observableSubscribe_def Let_def consistent_def registry_def)
  qed
qed

subsection \<open>Notification, the value of \<open>dispatch\<close>, and the closures\<close>

lemma dispatch_phase:
  assumes "wf_store st" and "consistent st" and "validAction fs action" and "\<not> isDispatching st"
      and "currentReducer st (currentState st) action (objectCount st) = (Inr s, n)"
  shows "\<exists>r st'. dispatch fs action st = Some (r, st')
          \<and> (case r of
                Inr a \<Rightarrow> a = action \<and> invoked st' = invoked st @ registry st
              | Inl e \<Rightarrow> \<exists>k<length (registry st). invoked st' = invoked st @ take (Suc k) (registry st))
          \<and> phaseEffect fs (observers st) (registry st) (listening st) = (returned r, listening st')
          \<and> arrays st' (nextListeners st) = registry st
          \<and> currentListeners st' = nextListeners st
          \<and> wf_store st' \<and> consistent st' \<and> \<not> isDispatching st' \<and> currentState st' = s"
proof -
  let ?st3 = "afterReducer st s n"
  obtain r1 st1 where c: "callAll fs (registry st) ?st3 = (r1, st1)"
    by (cases "callAll fs (registry st) ?st3")
  have w3: "wf_store ?st3" using assms(1) by (simp add: wf_store_def afterReducer_def)
  have u3: "untouchable (nextListeners st) ?st3"
    using assms(1) by (simp add: untouchable_def wf_store_def afterReducer_def)
  have i3: "invoked ?st3 = invoked st" "isDispatching ?st3 = isDispatching st"
    "currentState ?st3 = s" "currentListeners ?st3 = nextListeners st"
    "arrays ?st3 (nextListeners st) = registry st" "observers ?st3 = observers st"
    "listening ?st3 = listening st" "consistent ?st3 = consistent st"
    by (simp_all add: afterReducer_def registry_def listening_def consistent_def)
  note ctl = callAll_control [OF c]
  note unt = callAll_untouchable [OF u3 c]
  note wf1 = callAll_wf [OF w3 c]
  have nd3: "\<not> isDispatching ?st3" and c3: "consistent ?st3" using assms(2,4) i3 by simp_all
  note eff = callAll_effect [OF nd3 c3 c]
  let ?r = "case r1 of Inl e \<Rightarrow> Inl e | Inr u \<Rightarrow> Inr action"
  have d: "dispatch fs action st = Some (?r, st1)"
    using dispatch_run [OF assms(1,3,4,5)] c by (simp split: sum.splits)
  have tr: "case ?r of
                Inr a \<Rightarrow> a = action \<and> invoked st1 = invoked st @ registry st
              | Inl e \<Rightarrow> \<exists>k<length (registry st). invoked st1 = invoked st @ take (Suc k) (registry st)"
    using ctl i3 by (cases r1) auto
  have ph: "phaseEffect fs (observers st) (registry st) (listening st) = (returned ?r, listening st1)"
    using eff i3 by (cases r1) simp_all
  have rest: "arrays st1 (nextListeners st) = registry st" "currentListeners st1 = nextListeners st"
    "\<not> isDispatching st1" "currentState st1 = s" "consistent st1"
    using ctl unt eff i3 assms(4) by simp_all
  from d tr ph rest wf1 show ?thesis by blast
qed

text \<open>
  C3: a dispatch whose reducer returns calls the listeners of the registry as it is when
  the notification phase begins, in the order of the array, which is the order of
  registration (\<open>subscribe\<close> appends): when the dispatch returns, exactly those, and
  when a listener throws, those up to it. Whatever the listeners do with \<open>subscribe\<close>
  and \<open>unsubscribe\<close> meanwhile, the array that is iterated is not written to. The
  registry and the closures of the store that results are those of the store before with
  the calls of the listeners applied in order: each \<open>subscribe\<close> has appended its
  listener, each \<open>unsubscribe\<close> of a closure still subscribed has removed the first
  registration of its listener. That store is again well formed, consistent and not
  dispatching, and the next dispatch on it calls the listeners of that registry.
\<close>

theorem dispatch_notifies_snapshot:
  assumes "wf_store st" and "consistent st" and "validAction fs action" and "\<not> isDispatching st"
      and "currentReducer st (currentState st) action (objectCount st) = (Inr s, n)"
  shows "\<exists>r st'. dispatch fs action st = Some (r, st')
          \<and> (case r of
                Inr a \<Rightarrow> a = action \<and> invoked st' = invoked st @ registry st
              | Inl e \<Rightarrow> \<exists>k<length (registry st). invoked st' = invoked st @ take (Suc k) (registry st))
          \<and> phaseEffect fs (observers st) (registry st) (listening st) = (returned r, listening st')
          \<and> arrays st' (nextListeners st) = registry st
          \<and> currentListeners st' = nextListeners st
          \<and> wf_store st' \<and> consistent st' \<and> \<not> isDispatching st' \<and> currentState st' = s
          \<and> (\<forall>action2 s2 n2.
                validAction fs action2
                \<and> currentReducer st' (currentState st') action2 (objectCount st') = (Inr s2, n2)
                \<longrightarrow> (\<exists>r2 st2. dispatch fs action2 st' = Some (r2, st2)
                       \<and> (case r2 of
                             Inr a \<Rightarrow> invoked st2 = invoked st' @ registry st'
                           | Inl e \<Rightarrow> \<exists>k<length (registry st').
                                        invoked st2 = invoked st' @ take (Suc k) (registry st'))))"
proof -
  from dispatch_phase [OF assms] obtain r st' where
    d: "dispatch fs action st = Some (r, st')"
    and tr: "case r of
                Inr a \<Rightarrow> a = action \<and> invoked st' = invoked st @ registry st
              | Inl e \<Rightarrow> \<exists>k<length (registry st). invoked st' = invoked st @ take (Suc k) (registry st)"
    and ph: "phaseEffect fs (observers st) (registry st) (listening st) = (returned r, listening st')"
    and ar: "arrays st' (nextListeners st) = registry st" "currentListeners st' = nextListeners st"
    and w: "wf_store st'" and c: "consistent st'" and nd: "\<not> isDispatching st'"
    and cs: "currentState st' = s"
    by blast
  have nxt: "\<exists>r2 st2. dispatch fs action2 st' = Some (r2, st2)
                       \<and> (case r2 of
                             Inr a \<Rightarrow> invoked st2 = invoked st' @ registry st'
                           | Inl e \<Rightarrow> \<exists>k<length (registry st').
                                        invoked st2 = invoked st' @ take (Suc k) (registry st'))"
    if "validAction fs action2 \<and> currentReducer st' (currentState st') action2 (objectCount st') = (Inr s2, n2)"
    for action2 s2 n2
  proof -
    from that have v: "validAction fs action2"
      and red: "currentReducer st' (currentState st') action2 (objectCount st') = (Inr s2, n2)"
      by simp_all
    from dispatch_phase [OF w c v nd red] obtain r2 st2 where
      "dispatch fs action2 st' = Some (r2, st2)"
      "case r2 of
         Inr a \<Rightarrow> a = action2 \<and> invoked st2 = invoked st' @ registry st'
       | Inl e \<Rightarrow> \<exists>k<length (registry st'). invoked st2 = invoked st' @ take (Suc k) (registry st')"
      by blast
    then show ?thesis by (cases r2) auto
  qed
  from d tr ph ar w c nd cs nxt show ?thesis by blast
qed

text \<open>
  C4: a valid action dispatched while no dispatch is in flight, with a reducer that
  returns and listeners that all return, makes \<open>dispatch\<close> return, and what it returns
  is the action it was given.
\<close>

theorem dispatch_returns_action:
  assumes "wf_store st" and "validAction fs action" and "\<not> isDispatching st"
      and "currentReducer st (currentState st) action (objectCount st) = (Inr s, n)"
      and "callAll fs (registry st) (afterReducer st s n) = (Inr (), st')"
  shows "dispatch fs action st = Some (Inr action, st')"
  using dispatch_run [OF assms(1-4)] assms(5) by simp

text \<open>
  C1: when the reducer throws on a valid action, \<open>dispatch\<close> throws the same error; the
  store it leaves has the state it had before, is not dispatching, and differs from the
  store before in nothing but the allocation counter (no listener was called). A later
  dispatch on it whose reducer returns and whose listeners return then returns its
  action and installs the state the reducer returned.
\<close>

theorem dispatch_reducer_throws:
  assumes "validAction fs action" and "\<not> isDispatching st"
      and "currentReducer st (currentState st) action (objectCount st) = (Inl e, n)"
  shows "\<exists>st1. dispatch fs action st = Some (Inl e, st1)
          \<and> currentState st1 = currentState st \<and> \<not> isDispatching st1
          \<and> st1 = st\<lparr>objectCount := n\<rparr>
          \<and> (\<forall>action2 s n2 st2.
                wf_store st \<and> validAction fs action2
                \<and> currentReducer st1 (currentState st1) action2 (objectCount st1) = (Inr s, n2)
                \<and> callAll fs (registry st1) (afterReducer st1 s n2) = (Inr (), st2)
                \<longrightarrow> dispatch fs action2 st1 = Some (Inr action2, st2) \<and> currentState st2 = s)"
proof -
  let ?st1 = "st\<lparr>objectCount := n\<rparr>"
  from assms(1) obtain t where "isPlainObject action"
    "get_prop (environmentOf fs) action ''type'' = Inr t" "t \<noteq> Undefined"
    by (rule validAction_type)
  moreover have "st\<lparr>objectCount := n, isDispatching := False\<rparr> = ?st1"
    using assms(2) by (cases st) simp
  ultimately have d: "dispatch fs action st = Some (Inl e, ?st1)"
    using assms(2,3) by (simp add: dispatch_def)
  have nd: "\<not> isDispatching ?st1" using assms(2) by simp
  have later: "dispatch fs action2 ?st1 = Some (Inr action2, st2) \<and> currentState st2 = s"
    if "wf_store st" "validAction fs action2"
       "currentReducer ?st1 (currentState ?st1) action2 (objectCount ?st1) = (Inr s, n2)"
       "callAll fs (registry ?st1) (afterReducer ?st1 s n2) = (Inr (), st2)"
    for action2 s n2 st2
  proof -
    have w: "wf_store ?st1" using that(1) by (simp add: wf_store_def)
    from dispatch_run [OF w that(2) nd that(3)] that(4)
    have "dispatch fs action2 ?st1 = Some (Inr action2, st2)" by simp
    moreover from callAll_control [OF that(4)] have "currentState st2 = s"
      by (simp add: afterReducer_def)
    ultimately show ?thesis by simp
  qed
  from d nd later show ?thesis by (intro exI [of _ ?st1]) auto
qed

text \<open>
  C8: \<open>subscribe\<close> returns a closure that is subscribed. Calling a closure that is no
  longer subscribed returns without throwing and leaves the store as it is, so a second
  call after a first one that returned is such a call. Calling a closure that is still
  subscribed while a dispatch is in flight throws the \<open>ReentrantUnsubscribe\<close> error and
  leaves the store as it is. (The test of \<^verbatim>\<open>isSubscribed\<close> comes first in the code: a
  closure that is no longer subscribed returns also while a dispatch is in flight.)
\<close>

theorem unsubscribe_idempotent:
  "(subscribe listener st0 = (Inr t, st) \<longrightarrow>
       t < length (subscriptions st) \<and> subscriptions st ! t = (listener, True))
   \<and> (t < length (subscriptions st) \<and> \<not> snd (subscriptions st ! t)
        \<longrightarrow> unsubscribe t st = (Inr (), st))
   \<and> (t < length (subscriptions st) \<and> snd (subscriptions st ! t) \<and> isDispatching st
        \<longrightarrow> unsubscribe t st = (Inl ReentrantUnsubscribe, st))
   \<and> (t < length (subscriptions st) \<and> unsubscribe t st = (Inr (), st')
        \<longrightarrow> unsubscribe t st' = (Inr (), st'))"
proof -
  have a: "t < length (subscriptions st) \<and> subscriptions st ! t = (listener, True)"
    if "subscribe listener st0 = (Inr t, st)"
    using that
    by (auto simp: subscribe_def Let_def ensureCanMutateNextListeners_def nth_append split: if_splits)
  have b: "unsubscribe t st = (Inr (), st)"
    if "t < length (subscriptions st) \<and> \<not> snd (subscriptions st ! t)" for st :: "'a store"
    using that by (auto simp: unsubscribe_def split: prod.splits)
  have c: "unsubscribe t st = (Inl ReentrantUnsubscribe, st)"
    if "t < length (subscriptions st) \<and> snd (subscriptions st ! t) \<and> isDispatching st"
    using that by (auto simp: unsubscribe_def split: prod.splits)
  have d: "unsubscribe t st' = (Inr (), st')"
    if h: "t < length (subscriptions st) \<and> unsubscribe t st = (Inr (), st')"
  proof (cases "snd (subscriptions st ! t)")
    case False
    with h have "st' = st" by (auto simp: unsubscribe_def split: prod.splits)
    with h False b show ?thesis by simp
  next
    case True
    with h have "t < length (subscriptions st') \<and> \<not> snd (subscriptions st' ! t)"
      by (auto simp: unsubscribe_def Let_def split: prod.splits if_splits)
    then show ?thesis by (rule b)
  qed
  from a b c d show ?thesis by blast
qed

text \<open>
  C9: the observable's \<open>subscribe\<close> throws the \<open>InvalidObserver\<close> error for a number
  and for a function, but not for \<^verbatim>\<open>null\<close>, whose \<^verbatim>\<open>typeof\<close> is \<^verbatim>\<open>'object'\<close>:
  there the first call of \<open>observeState\<close> reads \<^verbatim>\<open>observer.next\<close> of \<^verbatim>\<open>null\<close> and
  the language throws its own TypeError.
\<close>

theorem observableSubscribe_null:
  "fst (observableSubscribe fs Null st) = Inl EngineTypeError
   \<and> fst (observableSubscribe fs (Num 3) st) = Inl InvalidObserver
   \<and> fst (observableSubscribe fs (Fun f) st) = Inl InvalidObserver"
  by (simp add: observableSubscribe_def observeState_def get_prop_def Let_def)

subsection \<open>The properties on the example store\<close>

lemma ex_action_valid:
  "validAction ex_program (ex_action ''INC'')" "validAction ex_program (ex_action ''BOOM'')"
  by (simp_all add: validAction_def get_prop_def ex_action_def)

lemma ex_listening_facts:
  "wf_store ex_listening" "\<not> isDispatching ex_listening"
  "registry ex_listening = [Fun 2, Fun 3, Fun 4]"
  "currentState ex_listening = Obj 5 Plain []" "objectCount ex_listening = 20"
  "currentReducer ex_listening = ex_fail_on_boom" "invoked ex_listening = []"
  "subscriptions ex_listening = [(Fun 2, True), (Fun 3, True), (Fun 4, True)]"
  "observers ex_listening = []"
  by (simp_all add: ex_listening_def ex_store_def subscribe_def Let_def
        ensureCanMutateNextListeners_def wf_store_def registry_def)

lemma ex_listening_consistent: "consistent ex_listening"
  by (simp add: consistent_def ex_listening_facts)

lemma ex_reduce_inc:
  "ex_fail_on_boom s (ex_action ''INC'') m = (Inr (Obj m Plain []), Suc m)"
  by (simp add: ex_fail_on_boom_def ex_fresh_on_inc_def ex_type_def ex_action_def)

lemma ex_reduce_boom:
  "ex_fail_on_boom s (ex_action ''BOOM'') m = (Inl (Thrown (Str ''boom'')), m)"
  by (simp add: ex_fail_on_boom_def ex_type_def ex_action_def)

lemma ex_notified_facts:
  "callAll ex_program [Fun 2, Fun 3, Fun 4] (afterReducer ex_listening (Obj 20 Plain []) 21) = (Inr (), ex_notified)"
  "invoked ex_notified = [Fun 2, Fun 3, Fun 4]"
  "currentReducer ex_notified = ex_fail_on_boom" "objectCount ex_notified = 21"
  "currentState ex_notified = Obj 20 Plain []"
  by (simp_all add: ex_notified_def ex_listening_def ex_store_def subscribe_def Let_def
        ensureCanMutateNextListeners_def registry_def afterReducer_def
        callListener_def callFunction_def ex_program_def unsubscribe_def getState_def splice1_def)

lemma ex_phase_effect:
  "phaseEffect ex_program [] [Fun 2, Fun 3, Fun 4]
     ([Fun 2, Fun 3, Fun 4], [(Fun 2, True), (Fun 3, True), (Fun 4, True)])
   = (True, ([Fun 2, Fun 4, Fun 5], [(Fun 2, True), (Fun 3, False), (Fun 4, True), (Fun 5, True)]))"
  by (simp add: listenerEffect_def ex_program_def)

lemma ex_second_notification:
  "fst (callAll ex_program [Fun 2, Fun 4, Fun 5] (afterReducer ex_notified (Obj 21 Plain []) 22)) = Inr ()"
  by (simp add: ex_notified_def ex_listening_def ex_store_def subscribe_def Let_def
        ensureCanMutateNextListeners_def registry_def afterReducer_def
        callListener_def callFunction_def ex_program_def unsubscribe_def getState_def splice1_def)

theorem dispatch_notifies_snapshot_witness:
  "\<exists>st2. dispatch ex_program (ex_action ''INC'') ex_listening = Some (Inr (ex_action ''INC''), ex_notified)
      \<and> registry ex_listening = [Fun 2, Fun 3, Fun 4]
      \<and> invoked ex_notified = [Fun 2, Fun 3, Fun 4]
      \<and> registry ex_notified = [Fun 2, Fun 4, Fun 5]
      \<and> dispatch ex_program (ex_action ''INC'') ex_notified = Some (Inr (ex_action ''INC''), st2)
      \<and> invoked st2 = [Fun 2, Fun 3, Fun 4, Fun 2, Fun 4, Fun 5]"
proof -
  let ?a = "ex_action ''INC''"
  have red1: "currentReducer ex_listening (currentState ex_listening) ?a (objectCount ex_listening)
      = (Inr (Obj 20 Plain []), 21)"
    by (simp add: ex_listening_facts ex_reduce_inc)
  have d1: "dispatch ex_program ?a ex_listening = Some (Inr ?a, ex_notified)"
    using dispatch_run [OF ex_listening_facts(1) ex_action_valid(1) ex_listening_facts(2) red1]
    by (simp only: ex_listening_facts(3) ex_notified_facts(1) prod.case sum.case)
  from dispatch_notifies_snapshot [OF ex_listening_facts(1) ex_listening_consistent ex_action_valid(1)
      ex_listening_facts(2) red1] d1
  have inv1: "invoked ex_notified = invoked ex_listening @ registry ex_listening"
    and ph: "phaseEffect ex_program (observers ex_listening) (registry ex_listening) (listening ex_listening)
               = (True, listening ex_notified)"
    and nxt: "\<forall>action2 s2 n2.
                validAction ex_program action2
                \<and> currentReducer ex_notified (currentState ex_notified) action2 (objectCount ex_notified) = (Inr s2, n2)
                \<longrightarrow> (\<exists>r2 st2. dispatch ex_program action2 ex_notified = Some (r2, st2)
                       \<and> (case r2 of
                             Inr a \<Rightarrow> invoked st2 = invoked ex_notified @ registry ex_notified
                           | Inl e \<Rightarrow> \<exists>k<length (registry ex_notified).
                                        invoked st2 = invoked ex_notified @ take (Suc k) (registry ex_notified)))"
    and w1: "wf_store ex_notified" and nd1: "\<not> isDispatching ex_notified"
    by auto
  from ph [unfolded listening_def ex_listening_facts(3,8,9) ex_phase_effect]
  have reg1: "registry ex_notified = [Fun 2, Fun 4, Fun 5]" by simp
  have red2: "currentReducer ex_notified (currentState ex_notified) ?a (objectCount ex_notified)
      = (Inr (Obj 21 Plain []), 22)"
    by (simp add: ex_notified_facts ex_reduce_inc)
  obtain st2 where c2: "callAll ex_program [Fun 2, Fun 4, Fun 5] (afterReducer ex_notified (Obj 21 Plain []) 22) = (Inr (), st2)"
    using ex_second_notification by (metis prod.collapse)
  have d2: "dispatch ex_program ?a ex_notified = Some (Inr ?a, st2)"
    using dispatch_run [OF w1 ex_action_valid(1) nd1 red2]
    by (simp only: reg1 c2 prod.case sum.case)
  from nxt ex_action_valid(1) red2 d2
  have inv2: "invoked st2 = invoked ex_notified @ registry ex_notified" by fastforce
  from d1 d2 inv1 inv2 reg1 show ?thesis
    by (simp add: ex_listening_facts ex_notified_facts)
qed

theorem dispatch_returns_action_witness:
  "dispatch ex_program (ex_action ''INC'') ex_listening = Some (Inr (ex_action ''INC''), ex_notified)"
proof -
  have red1: "currentReducer ex_listening (currentState ex_listening) (ex_action ''INC'') (objectCount ex_listening)
      = (Inr (Obj 20 Plain []), 21)"
    by (simp add: ex_listening_facts ex_reduce_inc)
  have c: "callAll ex_program (registry ex_listening) (afterReducer ex_listening (Obj 20 Plain []) 21)
      = (Inr (), ex_notified)"
    by (simp only: ex_listening_facts(3) ex_notified_facts(1))
  from dispatch_returns_action [OF ex_listening_facts(1) ex_action_valid(1) ex_listening_facts(2) red1 c]
  show ?thesis .
qed

theorem dispatch_reducer_throws_witness:
  "\<exists>st1. dispatch ex_program (ex_action ''BOOM'') ex_listening = Some (Inl (Thrown (Str ''boom'')), st1)
      \<and> currentState st1 = Obj 5 Plain [] \<and> \<not> isDispatching st1
      \<and> dispatch ex_program (ex_action ''INC'') st1 = Some (Inr (ex_action ''INC''), ex_notified)
      \<and> currentState ex_notified = Obj 20 Plain []"
proof -
  have red: "currentReducer ex_listening (currentState ex_listening) (ex_action ''BOOM'') (objectCount ex_listening)
      = (Inl (Thrown (Str ''boom'')), 20)"
    by (simp add: ex_listening_facts ex_reduce_boom)
  from dispatch_reducer_throws [OF ex_action_valid(2) ex_listening_facts(2) red]
  obtain st1 where d: "dispatch ex_program (ex_action ''BOOM'') ex_listening = Some (Inl (Thrown (Str ''boom'')), st1)"
    and cs: "currentState st1 = currentState ex_listening" and nd: "\<not> isDispatching st1"
    and eq: "st1 = ex_listening\<lparr>objectCount := 20\<rparr>"
    and later: "\<forall>action2 s n2 st2.
                wf_store ex_listening \<and> validAction ex_program action2
                \<and> currentReducer st1 (currentState st1) action2 (objectCount st1) = (Inr s, n2)
                \<and> callAll ex_program (registry st1) (afterReducer st1 s n2) = (Inr (), st2)
                \<longrightarrow> dispatch ex_program action2 st1 = Some (Inr action2, st2) \<and> currentState st2 = s"
    by blast
  have same: "st1 = ex_listening"
    using eq ex_listening_facts(5) by (cases ex_listening) simp
  have red2: "currentReducer st1 (currentState st1) (ex_action ''INC'') (objectCount st1)
      = (Inr (Obj 20 Plain []), 21)"
    by (simp add: same ex_listening_facts ex_reduce_inc)
  have c: "callAll ex_program (registry st1) (afterReducer st1 (Obj 20 Plain []) 21) = (Inr (), ex_notified)"
    by (simp only: same ex_listening_facts(3) ex_notified_facts(1))
  from later ex_listening_facts(1) ex_action_valid(1) red2 c
  have "dispatch ex_program (ex_action ''INC'') st1 = Some (Inr (ex_action ''INC''), ex_notified)
      \<and> currentState ex_notified = Obj 20 Plain []"
    by blast
  with d cs nd show ?thesis by (auto simp: ex_listening_facts)
qed

lemma ex_subscribed_facts:
  "subscribe (Fun 2) ex_store = (Inr 0, ex_subscribed)"
  "registry ex_subscribed = [Fun 2]"
  "unsubscribe 0 ex_subscribed = (Inr (), ex_unsubscribed)"
  "registry ex_unsubscribed = []"
  by (simp_all add: ex_subscribed_def ex_unsubscribed_def ex_store_def subscribe_def unsubscribe_def
        Let_def ensureCanMutateNextListeners_def registry_def splice1_def)

theorem unsubscribe_idempotent_witness:
  "subscribe (Fun 2) ex_store = (Inr 0, ex_subscribed)
      \<and> registry ex_subscribed = [Fun 2]
      \<and> unsubscribe 0 ex_subscribed = (Inr (), ex_unsubscribed)
      \<and> registry ex_unsubscribed = []
      \<and> unsubscribe 0 ex_unsubscribed = (Inr (), ex_unsubscribed)
      \<and> unsubscribe 0 (ex_unsubscribed\<lparr>isDispatching := True\<rparr>)
           = (Inr (), ex_unsubscribed\<lparr>isDispatching := True\<rparr>)
      \<and> unsubscribe 0 (ex_subscribed\<lparr>isDispatching := True\<rparr>)
           = (Inl ReentrantUnsubscribe, ex_subscribed\<lparr>isDispatching := True\<rparr>)"
proof -
  note th = unsubscribe_idempotent [of "Fun 2" ex_store 0]
  from th [of ex_subscribed] ex_subscribed_facts(1)
  have t1: "0 < length (subscriptions ex_subscribed)" "subscriptions ex_subscribed ! 0 = (Fun 2, True)"
    by simp_all
  from th [of ex_subscribed ex_unsubscribed] t1 ex_subscribed_facts(3)
  have u2: "unsubscribe 0 ex_unsubscribed = (Inr (), ex_unsubscribed)" by blast
  have t2: "0 < length (subscriptions ex_unsubscribed)" "\<not> snd (subscriptions ex_unsubscribed ! 0)"
    by (simp_all add: ex_subscribed_def ex_unsubscribed_def ex_store_def subscribe_def unsubscribe_def
        Let_def ensureCanMutateNextListeners_def)
  from th [of "ex_unsubscribed\<lparr>isDispatching := True\<rparr>"] t2
  have u3: "unsubscribe 0 (ex_unsubscribed\<lparr>isDispatching := True\<rparr>)
      = (Inr (), ex_unsubscribed\<lparr>isDispatching := True\<rparr>)"
    by simp
  from th [of "ex_subscribed\<lparr>isDispatching := True\<rparr>"] t1
  have u4: "unsubscribe 0 (ex_subscribed\<lparr>isDispatching := True\<rparr>)
      = (Inl ReentrantUnsubscribe, ex_subscribed\<lparr>isDispatching := True\<rparr>)"
    by simp
  from ex_subscribed_facts u2 u3 u4 show ?thesis by blast
qed

section \<open>Properties of \<open>applyMiddleware\<close>\<close>

lemma chainDispatch_foldr:
  "chainDispatch (Suc k) ms gs base =
     foldr (\<lambda>m next. m \<lparr>api_getState = gs, api_dispatch = chainDispatch k ms gs base\<rparr> next) ms base"
proof -
  have "foldr (\<lambda>g acc. g acc) (map f xs) b = foldr (\<lambda>m next. f m next) xs b"
    for f :: "'a middleware \<Rightarrow> 'a dispatcher \<Rightarrow> 'a dispatcher" and xs b
    by (induction xs) simp_all
  then show ?thesis by (simp add: compose_foldr fun_eq_iff)
qed

lemma loggers_foldr:
  "foldr (\<lambda>m next. m api next) (map logger tags) base action st
     = base action (st\<lparr>outside := outside st @ tags\<rparr>)"
proof (induction tags arbitrary: st)
  case Nil
  then show ?case by simp
next
  case (Cons t ts)
  then show ?case by (simp add: logger_def)
qed

text \<open>
  C6: in the store that \<open>applyMiddleware\<close> builds, \<open>dispatch\<close> is the first middleware
  applied to the API and to the chain of the remaining ones as its \<open>next\<close>, so the first
  middleware receives the dispatched action first and decides what it forwards; the chain
  of no middleware is the \<open>dispatch\<close> of the base store, the innermost link. Middleware
  that append their tag to a shared log before they forward leave the tags in the order
  of declaration and hand the action to the base \<open>dispatch\<close>; a middleware that does not
  forward keeps the action from every later link.
\<close>

theorem applyMiddleware_order:
  "chainDispatch (Suc k) [] gs base = base
   \<and> chainDispatch (Suc k) (m # ms) gs base =
       m \<lparr>api_getState = gs, api_dispatch = chainDispatch k (m # ms) gs base\<rparr>
         (foldr (\<lambda>m' next. m' \<lparr>api_getState = gs, api_dispatch = chainDispatch k (m # ms) gs base\<rparr> next)
            ms base)
   \<and> (createStore' args = Some (Inr (store, st)) \<longrightarrow>
        applyMiddleware (Suc k) mws createStore' args =
          Some (Inr (store\<lparr>dispatch_of :=
                       foldr (\<lambda>m' next. m' \<lparr>api_getState = getState_of store,
                                api_dispatch = chainDispatch k mws (getState_of store) (dispatch_of store)\<rparr> next)
                         mws (dispatch_of store)\<rparr>, st)))
   \<and> chainDispatch (Suc k) (map logger tags) lgs lbase action lst
        = lbase action (lst\<lparr>outside := outside lst @ tags\<rparr>)
   \<and> chainDispatch (Suc k) (swallow # ms) gs base action st' = Some (Inr Null, st')"
proof -
  have a: "chainDispatch (Suc k) [] gs base = base" by (simp add: fun_eq_iff)
  have b: "chainDispatch (Suc k) (m # ms) gs base =
       m \<lparr>api_getState = gs, api_dispatch = chainDispatch k (m # ms) gs base\<rparr>
         (foldr (\<lambda>m' next. m' \<lparr>api_getState = gs, api_dispatch = chainDispatch k (m # ms) gs base\<rparr> next)
            ms base)"
    by (simp only: chainDispatch_foldr foldr.simps o_apply)
  have c: "applyMiddleware (Suc k) mws createStore' args =
          Some (Inr (store\<lparr>dispatch_of :=
                       foldr (\<lambda>m' next. m' \<lparr>api_getState = getState_of store,
                                api_dispatch = chainDispatch k mws (getState_of store) (dispatch_of store)\<rparr> next)
                         mws (dispatch_of store)\<rparr>, st))"
    if "createStore' args = Some (Inr (store, st))"
    using that by (simp add: applyMiddleware_def chainDispatch_foldr del: chainDispatch.simps)
  have d: "chainDispatch (Suc k) (map logger tags) lgs lbase action lst
        = lbase action (lst\<lparr>outside := outside lst @ tags\<rparr>)"
    by (simp only: chainDispatch_foldr loggers_foldr)
  have e: "chainDispatch (Suc k) (swallow # ms) gs base action st' = Some (Inr Null, st')"
    by (simp only: chainDispatch_foldr foldr.simps o_apply swallow_def)
  from a b c d e show ?thesis by blast
qed


theorem applyMiddleware_order_witness:
  "\<exists>store st st'. ex_enhanced = Some (Inr (store, st))
      \<and> outside st = []
      \<and> dispatch_of store (ex_action ''INC'') st = Some (Inr (ex_action ''INC''), st')
      \<and> outside st' = [''a'', ''b'']
      \<and> currentState st' = Obj 12 Plain []"
proof -
  let ?obj = "\<lparr>dispatch_of = dispatch ex_program, subscribe_of = subscribe,
                  getState_of = getState, replaceReducer_of = replaceReducer ex_program,
                  observableSubscribe_of = observableSubscribe ex_program\<rparr>
                :: string list storeObject"
  let ?st = "\<lparr>currentReducer = ex_fail_on_boom, currentState = Obj 11 Plain [],
                 currentListeners = 0, nextListeners = 0, isDispatching = False,
                 arrays = (\<lambda>a. []), arrayCount = 1, subscriptions = [],
                 observers = [], objectCount = 12, invoked = [], delivered = [],
                 outside = []\<rparr> :: string list store"
  let ?mws = "[logger ''a'', logger ''b'']"
  let ?a = "ex_action ''INC''"
  let ?create = "\<lambda>(reducer', preloadedState').
                   createStore (Suc 0) ex_enhancers ex_program reducer' preloadedState' Undefined 10 []"
  have init: "ex_fail_on_boom Undefined (Obj 10 Plain [(''type'', Str ActionTypes_INIT)]) (Suc 10)
      = (Inr (Obj 11 Plain []), 12)"
    by (simp add: ex_fail_on_boom_def ex_fresh_on_inc_def ex_type_def ActionTypes_INIT_def)
  have body: "createStore_body ex_program (Callable ex_fail_on_boom) Undefined 10 [] = Some (Inr (?obj, ?st))"
    by (rule createStore_body_returns [where r = ex_fail_on_boom and preloadedState = Undefined and n = 10, OF init])
  have cs: "?create (Callable ex_fail_on_boom, Undefined) = Some (Inr (?obj, ?st))"
    using body by (simp only: prod.case createStore_branches(1) typeof.simps jstype.distinct not_False_eq_True)
  have unfold: "ex_enhanced = applyMiddleware (Suc 0) ?mws ?create (Callable ex_fail_on_boom, Undefined)"
    by (simp only: ex_enhanced_def numeral_2_eq_2 createStore_branches(2) ex_enhancers_def One_nat_def)
  from applyMiddleware_order [of 0 _ _ _ _ ?create "(Callable ex_fail_on_boom, Undefined)"
      ?obj ?st ?mws, THEN conjunct2, THEN conjunct2, THEN conjunct1, THEN mp, OF cs]
  have en: "ex_enhanced = Some (Inr (?obj\<lparr>dispatch_of :=
                       foldr (\<lambda>m' next. m' \<lparr>api_getState = getState_of ?obj,
                                api_dispatch = chainDispatch 0 ?mws (getState_of ?obj) (dispatch_of ?obj)\<rparr> next)
                         ?mws (dispatch_of ?obj)\<rparr>, ?st))"
    by (simp only: unfold)
  let ?st_ab = "?st\<lparr>outside := [''a'', ''b'']\<rparr>"
  have w: "wf_store ?st_ab" by (simp add: wf_store_def)
  have nd: "\<not> isDispatching ?st_ab" by simp
  have red: "currentReducer ?st_ab (currentState ?st_ab) ?a (objectCount ?st_ab) = (Inr (Obj 12 Plain []), 13)"
    by (simp add: ex_reduce_inc)
  have d: "dispatch ex_program ?a ?st_ab = Some (Inr ?a, afterReducer ?st_ab (Obj 12 Plain []) 13)"
    using dispatch_run [OF w ex_action_valid(1) nd red] by (simp add: registry_def)
  have ch: "foldr (\<lambda>m' next. m' \<lparr>api_getState = getState_of ?obj,
                                api_dispatch = chainDispatch 0 ?mws (getState_of ?obj) (dispatch_of ?obj)\<rparr> next)
                         ?mws (dispatch_of ?obj) ?a ?st = dispatch ex_program ?a ?st_ab"
    by (simp add: logger_def)
  let ?store = "?obj\<lparr>dispatch_of :=
                       foldr (\<lambda>m' next. m' \<lparr>api_getState = getState_of ?obj,
                                api_dispatch = chainDispatch 0 ?mws (getState_of ?obj) (dispatch_of ?obj)\<rparr> next)
                         ?mws (dispatch_of ?obj)\<rparr>"
  let ?st' = "afterReducer ?st_ab (Obj 12 Plain []) 13"
  have r1: "dispatch_of ?store ?a ?st = Some (Inr ?a, ?st')"
    using ch d by simp
  have r2: "outside ?st = []" "outside ?st' = [''a'', ''b'']" "currentState ?st' = Obj 12 Plain []"
    by (simp_all add: afterReducer_def)
  from en r1 r2 show ?thesis by blast
qed

end
